theory Spec2Isabelle
  imports Main "HOL-Library.Word" "HOL-Library.Multiset" "HOL-Library.Char_ord"
    "HOL-Library.List_Lexorder"
begin

section \<open>Machine types of the target (ESP32-P4, 32-bit RISC-V)\<close>

type_synonym uint8_t = "8 word"

type_synonym uint32_t = "32 word"

type_synonym size_t = "32 word"

text \<open>A \<^verbatim>\<open>void*\<close> is a 32-bit address; \<^verbatim>\<open>nullptr\<close> is address 0.\<close>

type_synonym pointer = "32 word"

datatype os_error_t =
    OS_OK
  | OS_ERROR_GENERIC
  | OS_ERROR_NO_MEMORY
  | OS_ERROR_INVALID_PARAM
  | OS_ERROR_NOT_FOUND
  | OS_ERROR_TIMEOUT
  | OS_ERROR_BUSY
  | OS_ERROR_NOT_SUPPORTED
  | OS_ERROR_HARDWARE
  | OS_ERROR_FILESYSTEM
  | OS_ERROR_PERMISSION
  | OS_ERROR_NOT_AVAILABLE
  | OS_ERROR_NOT_IMPLEMENTED

subsection \<open>Library algorithms used by the sources\<close>

text \<open>\<^verbatim>\<open>std::find_if\<close> over a vector: the position of the first element that satisfies
  the predicate, \<open>None\<close> for the \<^verbatim>\<open>end()\<close> iterator.\<close>

fun find_if :: "('a \<Rightarrow> bool) \<Rightarrow> 'a list \<Rightarrow> nat option" where
  "find_if P [] = None"
| "find_if P (x # xs) = (if P x then Some 0 else map_option Suc (find_if P xs))"

text \<open>\<^verbatim>\<open>vector::erase(it)\<close> for a valid iterator.\<close>

definition vector_erase :: "'a list \<Rightarrow> nat \<Rightarrow> 'a list" where
  "vector_erase xs it = take it xs @ drop (Suc it) xs"

section \<open>Memory manager (framework/system/memory\_manager.cpp)\<close>

record MemoryBlock =
  block_ptr :: pointer
  block_size :: size_t
  block_timestamp :: uint32_t
  block_file :: "string option"
  block_line :: int
  block_inUse :: bool

record MemoryPool =
  m_blockSize :: size_t
  m_totalBlocks :: size_t
  m_freeBlocks :: size_t
  m_memory :: pointer
  m_blockUsed :: "bool list"

text \<open>The constructor \<^verbatim>\<open>MemoryPool(blockSize, blockCount)\<close>. The argument \<open>heap\<close> is what
  \<^verbatim>\<open>heap_caps_malloc(blockSize * blockCount)\<close> answers (0 when it fails).\<close>

definition MemoryPool_new :: "size_t \<Rightarrow> size_t \<Rightarrow> pointer \<Rightarrow> MemoryPool" where
  "MemoryPool_new blockSize blockCount heap =
     (if heap \<noteq> 0 then
        \<lparr>m_blockSize = blockSize, m_totalBlocks = blockCount, m_freeBlocks = blockCount,
         m_memory = heap, m_blockUsed = replicate (unat blockCount) False\<rparr>
      else
        \<lparr>m_blockSize = blockSize, m_totalBlocks = 0, m_freeBlocks = 0,
         m_memory = 0, m_blockUsed = []\<rparr>)"

text \<open>The scan of \<^verbatim>\<open>MemoryPool::allocate\<close>: the first index whose flag is clear.\<close>

fun first_unused :: "bool list \<Rightarrow> nat \<Rightarrow> nat option" where
  "first_unused [] i = None"
| "first_unused (u # us) i = (if \<not> u then Some i else first_unused us (Suc i))"

definition MemoryPool_allocate :: "MemoryPool \<Rightarrow> pointer \<times> MemoryPool" where
  "MemoryPool_allocate p =
     (if m_freeBlocks p = 0 then (0, p)
      else
        (case first_unused (take (unat (m_totalBlocks p)) (m_blockUsed p)) 0 of
           None \<Rightarrow> (0, p)
         | Some i \<Rightarrow>
             (m_memory p + of_nat i * m_blockSize p,
              p\<lparr>m_blockUsed := (m_blockUsed p)[i := True],
                m_freeBlocks := m_freeBlocks p - 1\<rparr>)))"

definition MemoryPool_deallocate :: "MemoryPool \<Rightarrow> pointer \<Rightarrow> bool \<times> MemoryPool" where
  "MemoryPool_deallocate p ptr =
     (if ptr = 0 \<or> m_memory p = 0 then (False, p)
      else if ptr < m_memory p then (False, p)
      else
        (let offset = ptr - m_memory p in
         if offset mod m_blockSize p \<noteq> 0 then (False, p)
         else
           (let blockIndex = offset div m_blockSize p in
            if blockIndex \<ge> m_totalBlocks p then (False, p)
            else if \<not> (m_blockUsed p) ! unat blockIndex then (False, p)
            else
              (True,
               p\<lparr>m_blockUsed := (m_blockUsed p)[unat blockIndex := False],
                 m_freeBlocks := m_freeBlocks p + 1\<rparr>))))"

record MemoryManager =
  m_activeBlocks :: "MemoryBlock list"
  m_totalAllocated :: size_t
  m_peakAllocated :: size_t
  m_allocationCount :: uint32_t
  m_deallocationCount :: uint32_t
  m_pools :: "MemoryPool list"
  mm_initialized :: bool

text \<open>A default-constructed manager (the member initialisers of the class).\<close>

definition MemoryManager_new :: MemoryManager where
  "MemoryManager_new =
     \<lparr>m_activeBlocks = [], m_totalAllocated = 0, m_peakAllocated = 0,
      m_allocationCount = 0, m_deallocationCount = 0, m_pools = [], mm_initialized = False\<rparr>"

text \<open>\<^verbatim>\<open>MemoryManager::initialize\<close>; \<open>h0 \<dots> h3\<close> are the answers of the heap to the four
  pool constructors.\<close>

definition MemoryManager_initialize ::
  "MemoryManager \<Rightarrow> pointer \<Rightarrow> pointer \<Rightarrow> pointer \<Rightarrow> pointer \<Rightarrow> os_error_t \<times> MemoryManager" where
  "MemoryManager_initialize s h0 h1 h2 h3 =
     (if mm_initialized s then (OS_OK, s)
      else
        (OS_OK,
         s\<lparr>m_pools := m_pools s @
              [MemoryPool_new 16 64 h0, MemoryPool_new 64 32 h1,
               MemoryPool_new 256 16 h2, MemoryPool_new 1024 8 h3],
           mm_initialized := True\<rparr>))"

text \<open>The loop over the pools in \<^verbatim>\<open>MemoryManager::allocate\<close>.\<close>

fun allocate_pools :: "MemoryPool list \<Rightarrow> size_t \<Rightarrow> pointer \<times> MemoryPool list" where
  "allocate_pools [] sz = (0, [])"
| "allocate_pools (pool # pools) sz =
     (if sz \<le> m_blockSize pool \<and> m_freeBlocks pool > 0 then
        (case MemoryPool_allocate pool of
           (ptr, pool') \<Rightarrow>
             if ptr \<noteq> 0 then (ptr, pool' # pools)
             else (case allocate_pools pools sz of (q, pools') \<Rightarrow> (q, pool' # pools')))
      else (case allocate_pools pools sz of (q, pools') \<Rightarrow> (q, pool # pools')))"

text \<open>The first half of \<^verbatim>\<open>allocate\<close>: pools are tried for sizes up to 1024.\<close>

definition allocate_from_pools :: "MemoryManager \<Rightarrow> size_t \<Rightarrow> pointer \<times> MemoryPool list" where
  "allocate_from_pools s sz =
     (if sz \<le> 1024 then allocate_pools (m_pools s) sz else (0, m_pools s))"

text \<open>\<^verbatim>\<open>MemoryManager::allocate(size, file, line)\<close>. \<open>now\<close> is the reading of
  \<^verbatim>\<open>millis()\<close>, \<open>heap\<close> the answer of \<^verbatim>\<open>heap_caps_malloc(size)\<close>, consulted only when
  no pool served the request.\<close>

definition MemoryManager_allocate ::
  "MemoryManager \<Rightarrow> size_t \<Rightarrow> string option \<Rightarrow> int \<Rightarrow> uint32_t \<Rightarrow> pointer
     \<Rightarrow> pointer \<times> MemoryManager" where
  "MemoryManager_allocate s sz file line now heap =
     (if \<not> mm_initialized s \<or> sz = 0 then (0, s)
      else
        (case allocate_from_pools s sz of
           (p, pools') \<Rightarrow>
             (let ptr = (if p = 0 then heap else p) in
              if ptr \<noteq> 0 then
                (let block = \<lparr>block_ptr = ptr, block_size = sz, block_timestamp = now,
                              block_file = file, block_line = line, block_inUse = True\<rparr>;
                     total = m_totalAllocated s + sz
                 in (ptr,
                     s\<lparr>m_pools := pools',
                       m_activeBlocks := m_activeBlocks s @ [block],
                       m_totalAllocated := total,
                       m_allocationCount := m_allocationCount s + 1,
                       m_peakAllocated :=
                         (if total > m_peakAllocated s then total else m_peakAllocated s)\<rparr>))
              else (0, s\<lparr>m_pools := pools'\<rparr>))))"

definition findBlock :: "MemoryManager \<Rightarrow> pointer \<Rightarrow> nat option" where
  "findBlock s ptr = find_if (\<lambda>block. block_ptr block = ptr) (m_activeBlocks s)"

text \<open>The loop over the pools in \<^verbatim>\<open>MemoryManager::deallocate\<close>.\<close>

fun deallocate_pools :: "MemoryPool list \<Rightarrow> pointer \<Rightarrow> bool \<times> MemoryPool list" where
  "deallocate_pools [] ptr = (False, [])"
| "deallocate_pools (pool # pools) ptr =
     (case MemoryPool_deallocate pool ptr of
        (freed, pool') \<Rightarrow>
          if freed then (True, pool' # pools)
          else (case deallocate_pools pools ptr of (r, pools') \<Rightarrow> (r, pool' # pools')))"

text \<open>\<^verbatim>\<open>MemoryManager::deallocate(ptr)\<close>; \<^verbatim>\<open>heap_caps_free\<close> does not touch the manager.\<close>

definition MemoryManager_deallocate :: "MemoryManager \<Rightarrow> pointer \<Rightarrow> bool \<times> MemoryManager" where
  "MemoryManager_deallocate s ptr =
     (if ptr = 0 \<or> \<not> mm_initialized s then (False, s)
      else
        (case findBlock s ptr of
           None \<Rightarrow> (False, s)
         | Some it \<Rightarrow>
             (let sz = block_size (m_activeBlocks s ! it) in
              case deallocate_pools (m_pools s) ptr of
                (freedFromPool, pools') \<Rightarrow>
                  (True,
                   s\<lparr>m_pools := pools',
                     m_totalAllocated := m_totalAllocated s - sz,
                     m_deallocationCount := m_deallocationCount s + 1,
                     m_activeBlocks := vector_erase (m_activeBlocks s) it\<rparr>))))"

definition getTotalAllocated :: "MemoryManager \<Rightarrow> size_t" where
  "getTotalAllocated s = m_totalAllocated s"

text \<open>\<^verbatim>\<open>MemoryManager::checkLeaks\<close>: the counting loop.\<close>

definition checkLeaks :: "MemoryManager \<Rightarrow> size_t" where
  "checkLeaks s =
     fold (\<lambda>block leakCount. if block_inUse block then leakCount + 1 else leakCount)
       (m_activeBlocks s) 0"

subsection \<open>Call sequences\<close>

datatype mm_call =
    Allocate size_t "string option" int uint32_t pointer
  | Deallocate pointer

datatype mm_result = Allocated pointer | Deallocated bool

fun mm_step :: "MemoryManager \<Rightarrow> mm_call \<Rightarrow> mm_result \<times> MemoryManager" where
  "mm_step s (Allocate sz file line now heap) =
     (case MemoryManager_allocate s sz file line now heap of (p, s') \<Rightarrow> (Allocated p, s'))"
| "mm_step s (Deallocate ptr) =
     (case MemoryManager_deallocate s ptr of (ok, s') \<Rightarrow> (Deallocated ok, s'))"

text \<open>Running a call sequence: the log of calls with their results, and the final state.\<close>

fun mm_run :: "MemoryManager \<Rightarrow> mm_call list \<Rightarrow> (mm_call \<times> mm_result) list \<times> MemoryManager" where
  "mm_run s [] = ([], s)"
| "mm_run s (c # cs) =
     (case mm_step s c of
        (r, s') \<Rightarrow> (case mm_run s' cs of (log, s'') \<Rightarrow> ((c, r) # log, s'')))"

text \<open>The outstanding allocations in the words of the specification: the successful
  \<open>allocate\<close> calls whose pointer has not been successfully deallocated since.\<close>

definition freed_later :: "pointer \<Rightarrow> (mm_call \<times> mm_result) list \<Rightarrow> bool" where
  "freed_later p log = ((Deallocate p, Deallocated True) \<in> set log)"

fun outstanding :: "(mm_call \<times> mm_result) list \<Rightarrow> (pointer \<times> size_t) list" where
  "outstanding [] = []"
| "outstanding ((Allocate sz file line now heap, Allocated p) # log) =
     (if p \<noteq> 0 \<and> \<not> freed_later p log then (p, sz) # outstanding log else outstanding log)"
| "outstanding (other # log) = outstanding log"

subsection \<open>The contract of the heap\<close>

text \<open>Two address ranges \<open>[a, a + m)\<close> and \<open>[b, b + n)\<close> do not overlap.\<close>

definition apart :: "nat \<Rightarrow> nat \<Rightarrow> nat \<Rightarrow> nat \<Rightarrow> bool" where
  "apart a m b n = (a + m \<le> b \<or> b + n \<le> a)"

definition pool_bytes :: "MemoryPool \<Rightarrow> nat" where
  "pool_bytes p = unat (m_blockSize p) * unat (m_totalBlocks p)"

text \<open>What \<^verbatim>\<open>heap_caps_malloc(sz)\<close> may answer in state \<open>s\<close>: null, or a block that lies
  in the address space and overlaps neither a pool arena nor a tracked block.\<close>

definition heap_answer_ok :: "MemoryManager \<Rightarrow> size_t \<Rightarrow> pointer \<Rightarrow> bool" where
  "heap_answer_ok s sz heap =
     (heap = 0 \<or>
      (unat heap + unat sz \<le> 2 ^ 32 \<and>
       list_all (\<lambda>p. apart (unat heap) (unat sz) (unat (m_memory p)) (pool_bytes p)) (m_pools s) \<and>
       list_all (\<lambda>b. apart (unat heap) (unat sz) (unat (block_ptr b)) (unat (block_size b)))
         (m_activeBlocks s)))"

text \<open>The heap is consulted by \<open>allocate\<close> only when the call is not rejected and no pool
  served it.\<close>

fun heap_call_ok :: "MemoryManager \<Rightarrow> mm_call \<Rightarrow> bool" where
  "heap_call_ok s (Allocate sz file line now heap) =
     (if mm_initialized s \<and> sz \<noteq> 0 \<and> fst (allocate_from_pools s sz) = 0
      then heap_answer_ok s sz heap else True)"
| "heap_call_ok s (Deallocate ptr) = True"

fun heap_ok :: "MemoryManager \<Rightarrow> mm_call list \<Rightarrow> bool" where
  "heap_ok s [] = True"
| "heap_ok s (c # cs) = (heap_call_ok s c \<and> heap_ok (snd (mm_step s c)) cs)"

text \<open>The answers of the heap to the four pool constructors of \<open>initialize\<close>: each is
  null or an arena of the requested size inside the address space, and the arenas do not
  overlap.\<close>

fun arenas_ok :: "(pointer \<times> nat) list \<Rightarrow> bool" where
  "arenas_ok [] = True"
| "arenas_ok ((h, n) # rest) =
     ((h = 0 \<or> (unat h + n \<le> 2 ^ 32 \<and>
                list_all (\<lambda>(h', n'). h' = 0 \<or> apart (unat h) n (unat h') n') rest)) \<and>
      arenas_ok rest)"

definition init_heap_ok :: "pointer \<Rightarrow> pointer \<Rightarrow> pointer \<Rightarrow> pointer \<Rightarrow> bool" where
  "init_heap_ok h0 h1 h2 h3 = arenas_ok [(h0, 16 * 64), (h1, 64 * 32), (h2, 256 * 16), (h3, 1024 * 8)]"

subsection \<open>The invariant of the bookkeeping\<close>

definition blocks_apart :: "MemoryBlock \<Rightarrow> MemoryBlock \<Rightarrow> bool" where
  "blocks_apart a b =
     apart (unat (block_ptr a)) (unat (block_size a)) (unat (block_ptr b)) (unat (block_size b))"

definition pools_apart :: "MemoryPool \<Rightarrow> MemoryPool \<Rightarrow> bool" where
  "pools_apart p q = apart (unat (m_memory p)) (pool_bytes p) (unat (m_memory q)) (pool_bytes q)"

text \<open>What the constructor establishes of a pool: without an arena it has no blocks; with
  one, the blocks have a size, the arena lies in the address space, and there is a flag
  for every block.\<close>

definition pool_wf :: "MemoryPool \<Rightarrow> bool" where
  "pool_wf p =
     (if m_memory p = 0 then m_totalBlocks p = 0
      else m_blockSize p \<noteq> 0 \<and> unat (m_memory p) + pool_bytes p \<le> 2 ^ 32 \<and>
           length (m_blockUsed p) = unat (m_totalBlocks p))"

text \<open>The address of block \<open>i\<close> of a pool.\<close>

definition slot_addr :: "MemoryPool \<Rightarrow> nat \<Rightarrow> nat" where
  "slot_addr p i = unat (m_memory p) + i * unat (m_blockSize p)"

text \<open>A tracked block and a pool: the block lies outside the arena, or it occupies a
  block of the pool that is flagged as used.\<close>

definition block_fits :: "MemoryBlock \<Rightarrow> MemoryPool \<Rightarrow> bool" where
  "block_fits b p =
     (apart (unat (block_ptr b)) (unat (block_size b)) (unat (m_memory p)) (pool_bytes p) \<or>
      (\<exists>i < unat (m_totalBlocks p).
          m_blockUsed p ! i \<and> unat (block_ptr b) = slot_addr p i \<and>
          block_size b \<le> m_blockSize p))"

definition block_ok :: "MemoryBlock \<Rightarrow> bool" where
  "block_ok b =
     (block_ptr b \<noteq> 0 \<and> block_size b \<noteq> 0 \<and> block_inUse b \<and>
      unat (block_ptr b) + unat (block_size b) \<le> 2 ^ 32)"

definition mm_inv :: "MemoryManager \<Rightarrow> bool" where
  "mm_inv s =
     (mm_initialized s \<and>
      list_all pool_wf (m_pools s) \<and> sorted_wrt pools_apart (m_pools s) \<and>
      list_all block_ok (m_activeBlocks s) \<and> sorted_wrt blocks_apart (m_activeBlocks s) \<and>
      (\<forall>b \<in> set (m_activeBlocks s). \<forall>p \<in> set (m_pools s). block_fits b p) \<and>
      m_totalAllocated s = sum_list (map block_size (m_activeBlocks s)))"

text \<open>The two changes a pool undergoes: block \<open>i\<close> is handed out, block \<open>i\<close> is returned.\<close>

definition take_slot :: "MemoryPool \<Rightarrow> nat \<Rightarrow> MemoryPool" where
  "take_slot p i = p\<lparr>m_blockUsed := (m_blockUsed p)[i := True], m_freeBlocks := m_freeBlocks p - 1\<rparr>"

definition free_slot :: "MemoryPool \<Rightarrow> nat \<Rightarrow> MemoryPool" where
  "free_slot p i = p\<lparr>m_blockUsed := (m_blockUsed p)[i := False], m_freeBlocks := m_freeBlocks p + 1\<rparr>"

text \<open>The arena of a pool: its first address and its length.\<close>

definition arena :: "MemoryPool \<Rightarrow> nat \<times> nat" where
  "arena p = (unat (m_memory p), pool_bytes p)"

text \<open>A tracked block as the specification sees it: its pointer and its size.\<close>

definition tracked :: "MemoryBlock \<Rightarrow> pointer \<times> size_t" where
  "tracked b = (block_ptr b, block_size b)"

section \<open>The library routine \<^verbatim>\<open>std::sort\<close>\<close>

text \<open>\<^verbatim>\<open>std::sort(first, last, cmp)\<close> belongs to the C++ library, not to the repository.
  The language standard promises two things of it: the range is permuted, and afterwards
  no element is ordered by \<open>cmp\<close> before an element that precedes it. The order of
  elements that \<open>cmp\<close> does not distinguish is left open (the sort is not stable). The
  functions that sort take the library routine as a parameter \<open>srt\<close>; this is its contract.\<close>

definition std_sort_contract :: "('a \<Rightarrow> 'a \<Rightarrow> bool) \<Rightarrow> ('a list \<Rightarrow> 'a list) \<Rightarrow> bool" where
  "std_sort_contract cmp srt =
     (\<forall>xs. mset (srt xs) = mset xs \<and> sorted_wrt (\<lambda>a b. \<not> cmp b a) (srt xs))"

text \<open>The standard asks of \<open>cmp\<close> that it is a strict weak ordering.\<close>

definition strict_weak_order :: "('a \<Rightarrow> 'a \<Rightarrow> bool) \<Rightarrow> bool" where
  "strict_weak_order cmp =
     ((\<forall>a b. cmp a b \<longrightarrow> \<not> cmp b a) \<and>
      (\<forall>a b c. \<not> cmp a b \<longrightarrow> \<not> cmp b c \<longrightarrow> \<not> cmp a c))"

text \<open>A routine that meets the contract: insertion from the back, which keeps the order
  of equivalent elements.\<close>

fun insert_by :: "('a \<Rightarrow> 'a \<Rightarrow> bool) \<Rightarrow> 'a \<Rightarrow> 'a list \<Rightarrow> 'a list" where
  "insert_by cmp x [] = [x]"
| "insert_by cmp x (y # ys) = (if cmp y x then y # insert_by cmp x ys else x # y # ys)"

definition sort_keeping_ties :: "('a \<Rightarrow> 'a \<Rightarrow> bool) \<Rightarrow> 'a list \<Rightarrow> 'a list" where
  "sort_keeping_ties cmp xs = foldr (insert_by cmp) xs []"

subsection \<open>\<^verbatim>\<open>std::sort\<close> as libstdc++ implements it\<close>

text \<open>The firmware is built with GCC, whose library libstdc++ implements \<^verbatim>\<open>std::sort\<close> in
  \<^verbatim>\<open>bits/stl_algo.h\<close> and \<^verbatim>\<open>bits/stl_heap.h\<close>: quicksort with a median-of-three pivot on
  ranges of more than 16 elements, heapsort once the recursion is \<open>2 * lg n\<close> deep, and a
  final insertion sort over the whole range. The functions below follow that code and keep
  its names without the leading underscores. The array is a list, an iterator is a
  position in it, and a call returns the array it leaves behind.

  The loops that the library calls unguarded have no test for the end of the range; they
  rely on an element that stops them. Here they stop at the first and at the last position
  of the array at the latest.\<close>

definition S_threshold :: nat where
  "S_threshold = 16"

definition iter_swap :: "'a list \<Rightarrow> nat \<Rightarrow> nat \<Rightarrow> 'a list" where
  "iter_swap xs a b = xs[a := xs ! b, b := xs ! a]"

text \<open>\<^verbatim>\<open>std::__lg(n)\<close>: the position of the highest bit that is set.\<close>

fun lg :: "nat \<Rightarrow> nat" where
  "lg n = (if n < 2 then 0 else Suc (lg (n div 2)))"

declare lg.simps [simp del]

text \<open>\<^verbatim>\<open>__unguarded_linear_insert(last, cmp)\<close>: the loop, with \<open>val\<close> the element taken out of
  position \<open>last_i\<close>.\<close>

fun linear_insert_loop :: "('a \<Rightarrow> 'a \<Rightarrow> bool) \<Rightarrow> 'a \<Rightarrow> 'a list \<Rightarrow> nat \<Rightarrow> 'a list" where
  "linear_insert_loop cmp val xs last_i =
     (if 0 < last_i \<and> cmp val (xs ! (last_i - 1))
      then linear_insert_loop cmp val (xs[last_i := xs ! (last_i - 1)]) (last_i - 1)
      else xs[last_i := val])"

declare linear_insert_loop.simps [simp del]

definition unguarded_linear_insert :: "('a \<Rightarrow> 'a \<Rightarrow> bool) \<Rightarrow> 'a list \<Rightarrow> nat \<Rightarrow> 'a list" where
  "unguarded_linear_insert cmp xs last_i = linear_insert_loop cmp (xs ! last_i) xs last_i"

text \<open>\<^verbatim>\<open>std::move_backward(first, last, d_last)\<close> within one array, for \<open>first \<le> last_i\<close> and
  \<open>last_i - first \<le> d_last\<close>.\<close>

definition move_backward :: "'a list \<Rightarrow> nat \<Rightarrow> nat \<Rightarrow> nat \<Rightarrow> 'a list" where
  "move_backward xs first last_i d_last =
     take (d_last - (last_i - first)) xs @ take (last_i - first) (drop first xs) @ drop d_last xs"

text \<open>\<^verbatim>\<open>__insertion_sort(first, last, cmp)\<close>: the loop over \<open>i\<close>, and the function.\<close>

function insertion_sort_loop ::
  "('a \<Rightarrow> 'a \<Rightarrow> bool) \<Rightarrow> 'a list \<Rightarrow> nat \<Rightarrow> nat \<Rightarrow> nat \<Rightarrow> 'a list" where
  "insertion_sort_loop cmp xs first i last_i =
     (if i < last_i then
        insertion_sort_loop cmp
          (if cmp (xs ! i) (xs ! first)
           then (move_backward xs first i (i + 1))[first := xs ! i]
           else unguarded_linear_insert cmp xs i)
          first (i + 1) last_i
      else xs)"
  by pat_completeness auto

termination
  by (relation "measure (\<lambda>(cmp, xs, first, i, last_i). last_i - i)") auto

declare insertion_sort_loop.simps [simp del]

definition insertion_sort :: "('a \<Rightarrow> 'a \<Rightarrow> bool) \<Rightarrow> 'a list \<Rightarrow> nat \<Rightarrow> nat \<Rightarrow> 'a list" where
  "insertion_sort cmp xs first last_i =
     (if first = last_i then xs else insertion_sort_loop cmp xs first (first + 1) last_i)"

text \<open>\<^verbatim>\<open>__unguarded_insertion_sort(first, last, cmp)\<close>; the loop variable is \<open>i\<close>.\<close>

function unguarded_insertion_sort ::
  "('a \<Rightarrow> 'a \<Rightarrow> bool) \<Rightarrow> 'a list \<Rightarrow> nat \<Rightarrow> nat \<Rightarrow> 'a list" where
  "unguarded_insertion_sort cmp xs i last_i =
     (if i < last_i then unguarded_insertion_sort cmp (unguarded_linear_insert cmp xs i) (i + 1) last_i
      else xs)"
  by pat_completeness auto

termination
  by (relation "measure (\<lambda>(cmp, xs, i, last_i). last_i - i)") auto

declare unguarded_insertion_sort.simps [simp del]

definition final_insertion_sort :: "('a \<Rightarrow> 'a \<Rightarrow> bool) \<Rightarrow> 'a list \<Rightarrow> nat \<Rightarrow> nat \<Rightarrow> 'a list" where
  "final_insertion_sort cmp xs first last_i =
     (if last_i - first > S_threshold then
        unguarded_insertion_sort cmp (insertion_sort cmp xs first (first + S_threshold))
          (first + S_threshold) last_i
      else insertion_sort cmp xs first last_i)"

text \<open>\<^verbatim>\<open>__move_median_to_first(result, a, b, c, cmp)\<close>\<close>

definition move_median_to_first ::
  "('a \<Rightarrow> 'a \<Rightarrow> bool) \<Rightarrow> 'a list \<Rightarrow> nat \<Rightarrow> nat \<Rightarrow> nat \<Rightarrow> nat \<Rightarrow> 'a list" where
  "move_median_to_first cmp xs result a b c =
     (if cmp (xs ! a) (xs ! b) then
        (if cmp (xs ! b) (xs ! c) then iter_swap xs result b
         else if cmp (xs ! a) (xs ! c) then iter_swap xs result c
         else iter_swap xs result a)
      else if cmp (xs ! a) (xs ! c) then iter_swap xs result a
      else if cmp (xs ! b) (xs ! c) then iter_swap xs result c
      else iter_swap xs result b)"

text \<open>The two inner loops of \<^verbatim>\<open>__unguarded_partition\<close>:
  \<^verbatim>\<open>while (cmp(first, pivot)) ++first;\<close> and \<^verbatim>\<open>while (cmp(pivot, last)) --last;\<close>\<close>

function partition_advance :: "('a \<Rightarrow> 'a \<Rightarrow> bool) \<Rightarrow> 'a list \<Rightarrow> nat \<Rightarrow> nat \<Rightarrow> nat" where
  "partition_advance cmp xs first pivot =
     (if first < length xs \<and> cmp (xs ! first) (xs ! pivot)
      then partition_advance cmp xs (first + 1) pivot else first)"
  by pat_completeness auto

termination
  by (relation "measure (\<lambda>(cmp, xs, first, pivot). length xs - first)") auto

declare partition_advance.simps [simp del]

fun partition_retreat :: "('a \<Rightarrow> 'a \<Rightarrow> bool) \<Rightarrow> 'a list \<Rightarrow> nat \<Rightarrow> nat \<Rightarrow> nat" where
  "partition_retreat cmp xs last_i pivot =
     (if 0 < last_i \<and> cmp (xs ! pivot) (xs ! last_i)
      then partition_retreat cmp xs (last_i - 1) pivot else last_i)"

declare partition_retreat.simps [simp del]

text \<open>\<^verbatim>\<open>__unguarded_partition(first, last, pivot, cmp)\<close> returns the cut and leaves the array
  partitioned.\<close>

function unguarded_partition ::
  "('a \<Rightarrow> 'a \<Rightarrow> bool) \<Rightarrow> 'a list \<Rightarrow> nat \<Rightarrow> nat \<Rightarrow> nat \<Rightarrow> nat \<times> 'a list" where
  "unguarded_partition cmp xs first last_i pivot =
     (let first1 = partition_advance cmp xs first pivot;
          last1 = partition_retreat cmp xs (last_i - 1) pivot
      in if \<not> first1 < last1 then (first1, xs)
         else unguarded_partition cmp (iter_swap xs first1 last1) (first1 + 1) last1 pivot)"
  by pat_completeness auto

termination
proof (relation "measure (\<lambda>(cmp, xs, first, last_i, pivot). last_i - first)")
  show "wf (measure (\<lambda>(cmp :: 'a \<Rightarrow> 'a \<Rightarrow> bool, xs :: 'a list, first :: nat, last_i :: nat, pivot :: nat).
              last_i - first))"
    by simp
next
  fix cmp :: "'a \<Rightarrow> 'a \<Rightarrow> bool" and xs :: "'a list" and first last_i pivot first1 last1 :: nat
  assume f: "first1 = partition_advance cmp xs first pivot"
    and l: "last1 = partition_retreat cmp xs (last_i - 1) pivot"
    and lt: "\<not> \<not> first1 < last1"
  have "first \<le> partition_advance cmp xs first pivot"
  proof (induction cmp xs first pivot rule: partition_advance.induct)
    case (1 cmp xs first pivot)
    then show ?case
      by (subst partition_advance.simps) (auto simp: Suc_leD)
  qed
  moreover have "partition_retreat cmp xs n pivot \<le> n" for n
  proof (induction cmp xs n pivot rule: partition_retreat.induct)
    case (1 cmp xs last_i pivot)
    then show ?case
      by (subst partition_retreat.simps) (auto simp: le_diff_conv)
  qed
  ultimately have "first \<le> first1" "last1 \<le> last_i - 1"
    using f l by simp_all
  with lt show "((cmp, iter_swap xs first1 last1, first1 + 1, last1, pivot), cmp, xs, first, last_i, pivot)
      \<in> measure (\<lambda>(cmp, xs, first, last_i, pivot). last_i - first)"
    by simp
qed

declare unguarded_partition.simps [simp del]

definition unguarded_partition_pivot ::
  "('a \<Rightarrow> 'a \<Rightarrow> bool) \<Rightarrow> 'a list \<Rightarrow> nat \<Rightarrow> nat \<Rightarrow> nat \<times> 'a list" where
  "unguarded_partition_pivot cmp xs first last_i =
     (let mid = first + (last_i - first) div 2
      in unguarded_partition cmp (move_median_to_first cmp xs first (first + 1) mid (last_i - 1))
           (first + 1) last_i first)"

text \<open>The heap functions of \<^verbatim>\<open>bits/stl_heap.h\<close>. A heap occupies the positions
  \<open>first, \<dots>, first + len - 1\<close>; \<open>holeIndex\<close>, \<open>topIndex\<close>, \<open>parent\<close> and \<open>secondChild\<close> are
  distances from \<open>first\<close>.\<close>

function push_heap ::
  "('a \<Rightarrow> 'a \<Rightarrow> bool) \<Rightarrow> 'a list \<Rightarrow> nat \<Rightarrow> nat \<Rightarrow> nat \<Rightarrow> 'a \<Rightarrow> 'a list" where
  "push_heap cmp xs first holeIndex topIndex val =
     (let parent = (holeIndex - 1) div 2
      in if holeIndex > topIndex \<and> cmp (xs ! (first + parent)) val
         then push_heap cmp (xs[first + holeIndex := xs ! (first + parent)]) first parent topIndex val
         else xs[first + holeIndex := val])"
  by pat_completeness auto

termination
  by (relation "measure (\<lambda>(cmp, xs, first, holeIndex, topIndex, val). holeIndex)") auto

declare push_heap.simps [simp del]

text \<open>The first loop of \<^verbatim>\<open>__adjust_heap\<close>, which moves the larger child up into the hole; it
  returns the array, \<open>holeIndex\<close> and \<open>secondChild\<close>.\<close>

function adjust_heap_loop ::
  "('a \<Rightarrow> 'a \<Rightarrow> bool) \<Rightarrow> 'a list \<Rightarrow> nat \<Rightarrow> nat \<Rightarrow> nat \<Rightarrow> nat \<Rightarrow> 'a list \<times> nat \<times> nat" where
  "adjust_heap_loop cmp xs first len holeIndex secondChild =
     (if secondChild < (len - 1) div 2 then
        (let child = 2 * (secondChild + 1);
             secondChild' = (if cmp (xs ! (first + child)) (xs ! (first + (child - 1)))
                             then child - 1 else child)
         in adjust_heap_loop cmp (xs[first + holeIndex := xs ! (first + secondChild')])
              first len secondChild' secondChild')
      else (xs, holeIndex, secondChild))"
  by pat_completeness auto

termination
  by (relation "measure (\<lambda>(cmp, xs, first, len, holeIndex, secondChild). len - secondChild)")
    auto

declare adjust_heap_loop.simps [simp del]

text \<open>\<^verbatim>\<open>__adjust_heap(first, holeIndex, len, value, cmp)\<close>. The library computes
  \<^verbatim>\<open>(len - 2) / 2\<close> with a sign, which gives \<open>-1\<close> for an empty heap; hence the test
  \<open>2 \<le> len\<close> here.\<close>

definition adjust_heap ::
  "('a \<Rightarrow> 'a \<Rightarrow> bool) \<Rightarrow> 'a list \<Rightarrow> nat \<Rightarrow> nat \<Rightarrow> nat \<Rightarrow> 'a \<Rightarrow> 'a list" where
  "adjust_heap cmp xs first holeIndex len val =
     (case adjust_heap_loop cmp xs first len holeIndex holeIndex of
        (xs1, holeIndex1, secondChild1) \<Rightarrow>
          if len mod 2 = 0 \<and> 2 \<le> len \<and> secondChild1 = (len - 2) div 2 then
            (let secondChild2 = 2 * (secondChild1 + 1)
             in push_heap cmp (xs1[first + holeIndex1 := xs1 ! (first + (secondChild2 - 1))])
                  first (secondChild2 - 1) holeIndex val)
          else push_heap cmp xs1 first holeIndex1 holeIndex val)"

definition pop_heap :: "('a \<Rightarrow> 'a \<Rightarrow> bool) \<Rightarrow> 'a list \<Rightarrow> nat \<Rightarrow> nat \<Rightarrow> nat \<Rightarrow> 'a list" where
  "pop_heap cmp xs first last_i result =
     adjust_heap cmp (xs[result := xs ! first]) first 0 (last_i - first) (xs ! result)"

function make_heap_loop ::
  "('a \<Rightarrow> 'a \<Rightarrow> bool) \<Rightarrow> 'a list \<Rightarrow> nat \<Rightarrow> nat \<Rightarrow> nat \<Rightarrow> 'a list" where
  "make_heap_loop cmp xs first len parent =
     (let xs1 = adjust_heap cmp xs first parent len (xs ! (first + parent))
      in if parent = 0 then xs1 else make_heap_loop cmp xs1 first len (parent - 1))"
  by pat_completeness auto

termination
  by (relation "measure (\<lambda>(cmp, xs, first, len, parent). parent)") auto

declare make_heap_loop.simps [simp del]

definition make_heap :: "('a \<Rightarrow> 'a \<Rightarrow> bool) \<Rightarrow> 'a list \<Rightarrow> nat \<Rightarrow> nat \<Rightarrow> 'a list" where
  "make_heap cmp xs first last_i =
     (if last_i - first < 2 then xs
      else make_heap_loop cmp xs first (last_i - first) ((last_i - first - 2) div 2))"

function sort_heap :: "('a \<Rightarrow> 'a \<Rightarrow> bool) \<Rightarrow> 'a list \<Rightarrow> nat \<Rightarrow> nat \<Rightarrow> 'a list" where
  "sort_heap cmp xs first last_i =
     (if last_i - first > 1 then sort_heap cmp (pop_heap cmp xs first (last_i - 1) (last_i - 1)) first (last_i - 1)
      else xs)"
  by pat_completeness auto

termination
  by (relation "measure (\<lambda>(cmp, xs, first, last_i). last_i)") auto

declare sort_heap.simps [simp del]

text \<open>\<^verbatim>\<open>__heap_select(first, middle, last, cmp)\<close>: the loop over \<open>i\<close>, and the function.\<close>

function heap_select_loop ::
  "('a \<Rightarrow> 'a \<Rightarrow> bool) \<Rightarrow> 'a list \<Rightarrow> nat \<Rightarrow> nat \<Rightarrow> nat \<Rightarrow> nat \<Rightarrow> 'a list" where
  "heap_select_loop cmp xs first middle i last_i =
     (if i < last_i then
        heap_select_loop cmp
          (if cmp (xs ! i) (xs ! first) then pop_heap cmp xs first middle i else xs)
          first middle (i + 1) last_i
      else xs)"
  by pat_completeness auto

termination
  by (relation "measure (\<lambda>(cmp, xs, first, middle, i, last_i). last_i - i)") auto

declare heap_select_loop.simps [simp del]

definition heap_select :: "('a \<Rightarrow> 'a \<Rightarrow> bool) \<Rightarrow> 'a list \<Rightarrow> nat \<Rightarrow> nat \<Rightarrow> nat \<Rightarrow> 'a list" where
  "heap_select cmp xs first middle last_i =
     heap_select_loop cmp (make_heap cmp xs first middle) first middle middle last_i"

definition partial_sort :: "('a \<Rightarrow> 'a \<Rightarrow> bool) \<Rightarrow> 'a list \<Rightarrow> nat \<Rightarrow> nat \<Rightarrow> nat \<Rightarrow> 'a list" where
  "partial_sort cmp xs first middle last_i =
     sort_heap cmp (heap_select cmp xs first middle last_i) first middle"

text \<open>\<^verbatim>\<open>__introsort_loop(first, last, depth_limit, cmp)\<close>: each round of the loop sorts the
  part behind the cut by a call of its own and goes on with the part before the cut.\<close>

fun introsort_loop :: "('a \<Rightarrow> 'a \<Rightarrow> bool) \<Rightarrow> 'a list \<Rightarrow> nat \<Rightarrow> nat \<Rightarrow> nat \<Rightarrow> 'a list" where
  "introsort_loop cmp xs first last_i 0 =
     (if last_i - first > S_threshold then partial_sort cmp xs first last_i last_i else xs)"
| "introsort_loop cmp xs first last_i (Suc depth_limit) =
     (if last_i - first > S_threshold then
        (case unguarded_partition_pivot cmp xs first last_i of
           (cut_i, xs1) \<Rightarrow>
             introsort_loop cmp (introsort_loop cmp xs1 cut_i last_i depth_limit) first cut_i depth_limit)
      else xs)"

declare introsort_loop.simps [simp del]

text \<open>\<^verbatim>\<open>std::sort(first, last, cmp)\<close> on the whole array.\<close>

definition std_sort :: "('a \<Rightarrow> 'a \<Rightarrow> bool) \<Rightarrow> 'a list \<Rightarrow> 'a list" where
  "std_sort cmp xs =
     (if xs = [] then xs
      else final_insertion_sort cmp (introsort_loop cmp xs 0 (length xs) (lg (length xs) * 2))
             0 (length xs))"

section \<open>Event system (framework/system/event\_system.cpp)\<close>

record EventData =
  event_type :: uint32_t
  event_data :: pointer
  event_dataSize :: size_t
  event_timestamp :: uint32_t
  event_senderId :: uint32_t

text \<open>A callback is opaque code. What the event system sees of a call is whether it
  returns or throws.\<close>

datatype callback_outcome = Returns | Throws

type_synonym EventCallback = "EventData \<Rightarrow> callback_outcome"

record EventListener =
  listener_id :: uint32_t
  listener_eventType :: uint32_t
  listener_callback :: EventCallback
  listener_priority :: uint8_t
  listener_oneShot :: bool
  listener_callCount :: uint32_t

text \<open>\<open>m_listeners\<close> is a \<^verbatim>\<open>std::map\<close> from event type to a vector of listeners,
  \<open>m_eventQueue\<close> a \<^verbatim>\<open>std::queue\<close> (front of the queue = head of the list).\<close>

record EventSystem =
  m_listeners :: "uint32_t \<rightharpoonup> EventListener list"
  m_eventQueue :: "EventData list"
  m_eventsPublished :: uint32_t
  m_eventsProcessed :: uint32_t
  m_listenersNotified :: uint32_t
  m_nextListenerId :: uint32_t
  m_loggingEnabled :: bool
  es_initialized :: bool

definition OS_EVENT_QUEUE_SIZE :: nat where
  "OS_EVENT_QUEUE_SIZE = 128"

definition EventSystem_new :: EventSystem where
  "EventSystem_new =
     \<lparr>m_listeners = Map.empty, m_eventQueue = [], m_eventsPublished = 0,
      m_eventsProcessed = 0, m_listenersNotified = 0, m_nextListenerId = 0,
      m_loggingEnabled = False, es_initialized = False\<rparr>"

definition EventSystem_initialize :: "EventSystem \<Rightarrow> os_error_t \<times> EventSystem" where
  "EventSystem_initialize s =
     (if es_initialized s then (OS_OK, s)
      else (OS_OK, s\<lparr>m_listeners := Map.empty, m_eventQueue := [], es_initialized := True\<rparr>))"

text \<open>The comparator handed to \<^verbatim>\<open>std::sort\<close> in \<open>subscribe\<close>.\<close>

definition listener_comp :: "EventListener \<Rightarrow> EventListener \<Rightarrow> bool" where
  "listener_comp a b = (listener_priority a > listener_priority b)"

text \<open>\<^verbatim>\<open>EventSystem::subscribe\<close>; an empty \<^verbatim>\<open>std::function\<close> is \<open>None\<close>. The result 0
  reports failure.\<close>

definition subscribe ::
  "(EventListener list \<Rightarrow> EventListener list) \<Rightarrow> EventSystem \<Rightarrow> uint32_t \<Rightarrow> EventCallback option
     \<Rightarrow> uint8_t \<Rightarrow> bool \<Rightarrow> uint32_t \<times> EventSystem" where
  "subscribe srt s eventType callback priority oneShot =
     (if \<not> es_initialized s \<or> callback = None then (0, s)
      else
        (let newId = m_nextListenerId s + 1;
             listener = \<lparr>listener_id = newId, listener_eventType = eventType,
                         listener_callback = the callback, listener_priority = priority,
                         listener_oneShot = oneShot, listener_callCount = 0\<rparr>;
             old = (case m_listeners s eventType of None \<Rightarrow> [] | Some ls \<Rightarrow> ls)
         in (newId,
             s\<lparr>m_nextListenerId := newId,
               m_listeners := (m_listeners s)(eventType \<mapsto> srt (old @ [listener]))\<rparr>)))"

definition findListeners :: "EventSystem \<Rightarrow> uint32_t \<Rightarrow> EventListener list" where
  "findListeners s eventType = (case m_listeners s eventType of None \<Rightarrow> [] | Some ls \<Rightarrow> ls)"

text \<open>The loop of \<^verbatim>\<open>publishSync\<close> over the listeners found: every callback is invoked; one
  that returns is counted, one that throws is not.\<close>

fun notify :: "EventData \<Rightarrow> EventListener list \<Rightarrow> EventListener list \<times> size_t" where
  "notify event [] = ([], 0)"
| "notify event (l # ls) =
     (case notify event ls of
        (ls', n) \<Rightarrow>
          (case listener_callback l event of
             Returns \<Rightarrow> (l\<lparr>listener_callCount := listener_callCount l + 1\<rparr> # ls', n + 1)
           | Throws \<Rightarrow> (l # ls', n)))"

text \<open>\<^verbatim>\<open>EventSystem::publishSync\<close>. Besides the count it returns, the model reports the
  listeners whose callbacks were invoked, in the order of invocation.\<close>

definition publishSync ::
  "EventSystem \<Rightarrow> EventData \<Rightarrow> size_t \<times> EventListener list \<times> EventSystem" where
  "publishSync s event =
     (if \<not> es_initialized s then (0, [], s)
      else
        (let listeners = findListeners s (event_type event) in
         case notify event listeners of
           (listeners', notified) \<Rightarrow>
             (notified, listeners,
              s\<lparr>m_listeners :=
                  (case m_listeners s (event_type event) of
                     None \<Rightarrow> m_listeners s
                   | Some ls \<Rightarrow> (m_listeners s)(event_type event \<mapsto> listeners')),
                m_listenersNotified := m_listenersNotified s + notified\<rparr>)))"

definition publishAsync :: "EventSystem \<Rightarrow> EventData \<Rightarrow> bool \<times> EventSystem" where
  "publishAsync s event =
     (if \<not> es_initialized s then (False, s)
      else if length (m_eventQueue s) \<ge> OS_EVENT_QUEUE_SIZE then (False, s)
      else
        (True,
         s\<lparr>m_eventQueue := m_eventQueue s @ [event],
           m_eventsPublished := m_eventsPublished s + 1\<rparr>))"

text \<open>\<^verbatim>\<open>EventSystem::publish\<close> builds the event (\<open>now\<close> is the reading of \<^verbatim>\<open>millis()\<close>) and
  publishes it either way.\<close>

definition publish ::
  "EventSystem \<Rightarrow> uint32_t \<Rightarrow> pointer \<Rightarrow> size_t \<Rightarrow> uint32_t \<Rightarrow> bool \<Rightarrow> uint32_t
     \<Rightarrow> size_t \<times> EventListener list \<times> EventSystem" where
  "publish s eventType data dataSize senderId async now =
     (let event = \<lparr>event_type = eventType, event_data = data, event_dataSize = dataSize,
                   event_timestamp = now, event_senderId = senderId\<rparr>
      in if async then
           (case publishAsync s event of (ok, s') \<Rightarrow> ((if ok then 1 else 0), [], s'))
         else publishSync s event)"

definition cleanupListeners :: "EventSystem \<Rightarrow> EventSystem" where
  "cleanupListeners s =
     s\<lparr>m_listeners :=
         (\<lambda>eventType.
            map_option
              (filter (\<lambda>listener. \<not> (listener_oneShot listener \<and> listener_callCount listener > 0)))
              (m_listeners s eventType))\<rparr>"

definition maxEventsPerFrame :: nat where
  "maxEventsPerFrame = 10"

text \<open>The \<^verbatim>\<open>while\<close> loop of \<^verbatim>\<open>processEvents\<close>, with the invoked listeners collected.\<close>

function processEvents_loop ::
  "EventSystem \<Rightarrow> nat \<Rightarrow> EventListener list \<Rightarrow> EventSystem \<times> nat \<times> EventListener list" where
  "processEvents_loop s eventsProcessed invoked =
     (if m_eventQueue s \<noteq> [] \<and> eventsProcessed < maxEventsPerFrame then
        (case publishSync (s\<lparr>m_eventQueue := tl (m_eventQueue s)\<rparr>) (hd (m_eventQueue s)) of
           (listenersNotified, called, s') \<Rightarrow>
             processEvents_loop (s'\<lparr>m_eventsProcessed := m_eventsProcessed s' + 1\<rparr>)
               (Suc eventsProcessed) (invoked @ called))
      else (s, eventsProcessed, invoked))"
  by pat_completeness auto

termination
  by (relation "measure (\<lambda>(s, n, invoked). maxEventsPerFrame - n)") auto

declare processEvents_loop.simps [simp del]

definition processEvents :: "EventSystem \<Rightarrow> size_t \<times> EventListener list \<times> EventSystem" where
  "processEvents s =
     (if \<not> es_initialized s then (0, [], s)
      else
        (case processEvents_loop s 0 [] of
           (s', eventsProcessed, invoked) \<Rightarrow>
             (of_nat eventsProcessed, invoked,
              if eventsProcessed > 0 then cleanupListeners s' else s')))"

subsection \<open>Call sequences\<close>

text \<open>A subscription request: event type, callback, priority, one-shot flag.\<close>

type_synonym subscription = "uint32_t \<times> EventCallback option \<times> uint8_t \<times> bool"

fun subscribe_all ::
  "(EventListener list \<Rightarrow> EventListener list) \<Rightarrow> EventSystem \<Rightarrow> subscription list \<Rightarrow> EventSystem" where
  "subscribe_all srt s [] = s"
| "subscribe_all srt s ((eventType, callback, priority, oneShot) # rest) =
     subscribe_all srt (snd (subscribe srt s eventType callback priority oneShot)) rest"

datatype es_call = PublishAsync EventData | ProcessEvents

fun es_step :: "EventSystem \<Rightarrow> es_call \<Rightarrow> EventSystem" where
  "es_step s (PublishAsync event) = snd (publishAsync s event)"
| "es_step s ProcessEvents = snd (snd (processEvents s))"

fun es_run :: "EventSystem \<Rightarrow> es_call list \<Rightarrow> EventSystem" where
  "es_run s [] = s"
| "es_run s (c # cs) = es_run (es_step s c) cs"

text \<open>The listeners invoked by a series of synchronous publications of one event.\<close>

fun publishSync_times :: "nat \<Rightarrow> EventSystem \<Rightarrow> EventData \<Rightarrow> EventListener list \<times> EventSystem" where
  "publishSync_times 0 s event = ([], s)"
| "publishSync_times (Suc n) s event =
     (case publishSync s event of
        (notified, called, s') \<Rightarrow>
          (case publishSync_times n s' event of (rest, s'') \<Rightarrow> (called @ rest, s'')))"

section \<open>Task scheduler (framework/system/task\_scheduler.cpp)\<close>

datatype TaskState =
    TaskState_READY
  | TaskState_RUNNING
  | TaskState_WAITING
  | TaskState_SUSPENDED
  | TaskState_COMPLETED

text \<open>A task function is opaque code, so the member \<open>function\<close> of \<open>Task\<close> has no field
  here. What the scheduler sees of one execution is listed in an \<open>execution\<close> record: the
  readings of \<^verbatim>\<open>millis()\<close> before and after the call, whether the call returned or threw,
  and the reading of \<^verbatim>\<open>millis()\<close> taken by \<open>update\<close> for the frame budget afterwards.\<close>

record Task =
  task_id :: uint32_t
  task_priority :: uint8_t
  task_state :: TaskState
  task_nextExecution :: uint32_t
  task_period :: uint32_t
  task_maxRunTime :: uint32_t
  task_actualRunTime :: uint32_t
  task_executionCount :: uint32_t
  task_name :: "string option"
  task_autoDelete :: bool

record execution =
  startTime :: uint32_t
  outcome :: callback_outcome
  endTime :: uint32_t
  frameNow :: uint32_t

record TaskScheduler =
  m_tasks :: "Task list"
  m_nextTaskId :: uint32_t
  m_defaultMaxRunTime :: uint32_t
  m_totalExecutionTime :: uint32_t
  m_lastUpdateTime :: uint32_t
  m_cpuLoad :: uint8_t
  m_tasksExecuted :: uint32_t
  m_tasksOverrun :: uint32_t
  ts_initialized :: bool

definition OS_MAX_TASKS :: nat where
  "OS_MAX_TASKS = 32"

definition TaskScheduler_new :: TaskScheduler where
  "TaskScheduler_new =
     \<lparr>m_tasks = [], m_nextTaskId = 0, m_defaultMaxRunTime = 50, m_totalExecutionTime = 0,
      m_lastUpdateTime = 0, m_cpuLoad = 0, m_tasksExecuted = 0, m_tasksOverrun = 0,
      ts_initialized = False\<rparr>"

definition TaskScheduler_initialize :: "TaskScheduler \<Rightarrow> uint32_t \<Rightarrow> os_error_t \<times> TaskScheduler" where
  "TaskScheduler_initialize s now =
     (if ts_initialized s then (OS_OK, s)
      else (OS_OK, s\<lparr>m_lastUpdateTime := now, ts_initialized := True\<rparr>))"

text \<open>\<^verbatim>\<open>scheduleOnce\<close> and \<^verbatim>\<open>schedulePeriodic\<close>; \<open>has_function\<close> is false for an empty
  \<^verbatim>\<open>std::function\<close>, \<open>now\<close> is the reading of \<^verbatim>\<open>millis()\<close>. The result 0 reports failure.\<close>

definition scheduleOnce ::
  "TaskScheduler \<Rightarrow> bool \<Rightarrow> uint8_t \<Rightarrow> uint32_t \<Rightarrow> string option \<Rightarrow> uint32_t
     \<Rightarrow> uint32_t \<times> TaskScheduler" where
  "scheduleOnce s has_function priority delay name now =
     (if \<not> ts_initialized s \<or> \<not> has_function \<or> length (m_tasks s) \<ge> OS_MAX_TASKS then (0, s)
      else
        (let newId = m_nextTaskId s + 1;
             task = \<lparr>task_id = newId, task_priority = priority, task_state = TaskState_READY,
                     task_nextExecution = now + delay, task_period = 0,
                     task_maxRunTime = m_defaultMaxRunTime s, task_actualRunTime = 0,
                     task_executionCount = 0, task_name = name, task_autoDelete = True\<rparr>
         in (newId, s\<lparr>m_nextTaskId := newId, m_tasks := m_tasks s @ [task]\<rparr>)))"

definition schedulePeriodic ::
  "TaskScheduler \<Rightarrow> bool \<Rightarrow> uint32_t \<Rightarrow> uint8_t \<Rightarrow> uint32_t \<Rightarrow> string option \<Rightarrow> uint32_t
     \<Rightarrow> uint32_t \<times> TaskScheduler" where
  "schedulePeriodic s has_function period priority delay name now =
     (if \<not> ts_initialized s \<or> \<not> has_function \<or> period = 0
         \<or> length (m_tasks s) \<ge> OS_MAX_TASKS then (0, s)
      else
        (let newId = m_nextTaskId s + 1;
             task = \<lparr>task_id = newId, task_priority = priority, task_state = TaskState_READY,
                     task_nextExecution = now + delay, task_period = period,
                     task_maxRunTime = m_defaultMaxRunTime s, task_actualRunTime = 0,
                     task_executionCount = 0, task_name = name, task_autoDelete = False\<rparr>
         in (newId, s\<lparr>m_nextTaskId := newId, m_tasks := m_tasks s @ [task]\<rparr>)))"

text \<open>The statistics of the scheduler that \<^verbatim>\<open>executeTask\<close> updates: \<open>m_tasksExecuted\<close>,
  \<open>m_tasksOverrun\<close> and \<open>m_totalExecutionTime\<close>.\<close>

type_synonym task_stats = "uint32_t \<times> uint32_t \<times> uint32_t"

text \<open>\<^verbatim>\<open>TaskScheduler::executeTask(task)\<close> with what was observed of the execution.\<close>

definition executeTask :: "Task \<Rightarrow> task_stats \<Rightarrow> execution \<Rightarrow> Task \<times> task_stats" where
  "executeTask task stats e =
     (case stats of
        (tasksExecuted, tasksOverrun, totalExecutionTime) \<Rightarrow>
          if task_state task \<noteq> TaskState_READY then (task, stats)
          else
            (let executionTime = endTime e - startTime e;
                 tasksExecuted' = (case outcome e of Returns \<Rightarrow> tasksExecuted + 1
                                   | Throws \<Rightarrow> tasksExecuted);
                 tasksOverrun' = (if executionTime > task_maxRunTime task then tasksOverrun + 1
                                  else tasksOverrun);
                 task1 = task\<lparr>task_actualRunTime := task_actualRunTime task + executionTime,
                              task_executionCount := task_executionCount task + 1\<rparr>;
                 task2 = (if task_period task > 0
                          then task1\<lparr>task_nextExecution := endTime e + task_period task,
                                      task_state := TaskState_READY\<rparr>
                          else task1\<lparr>task_state := TaskState_COMPLETED\<rparr>)
             in (task2, (tasksExecuted', tasksOverrun', totalExecutionTime + executionTime))))"

text \<open>The comparator handed to \<^verbatim>\<open>std::sort\<close> in \<open>update\<close>.\<close>

definition task_comp :: "Task \<Rightarrow> Task \<Rightarrow> bool" where
  "task_comp a b =
     (if task_priority a \<noteq> task_priority b then task_priority a > task_priority b
      else task_nextExecution a < task_nextExecution b)"

text \<open>The loop of \<open>update\<close> over the sorted tasks. \<open>obs k\<close> is what is observed of
  the execution number \<open>k\<close> of this pass, \<open>k\<close> counts the executions so far. The result
  holds the tasks after the loop, the statistics, and the tasks whose functions were
  called, in the order of the calls and as they were when called.\<close>

fun run_ready ::
  "uint32_t \<Rightarrow> uint32_t \<Rightarrow> (nat \<Rightarrow> execution) \<Rightarrow> nat \<Rightarrow> Task list \<Rightarrow> task_stats
     \<Rightarrow> Task list \<times> task_stats \<times> Task list" where
  "run_ready currentTime frameStartTime obs k [] stats = ([], stats, [])"
| "run_ready currentTime frameStartTime obs k (task # tasks) stats =
     (if task_state task = TaskState_READY \<and> currentTime \<ge> task_nextExecution task then
        (case executeTask task stats (obs k) of
           (task', stats') \<Rightarrow>
             if frameNow (obs k) - frameStartTime > 16 then (task' # tasks, stats', [task])
             else
               (case run_ready currentTime frameStartTime obs (Suc k) tasks stats' of
                  (tasks', stats'', executed) \<Rightarrow>
                    (task' # tasks', stats'', task # executed)))
      else
        (case run_ready currentTime frameStartTime obs k tasks stats of
           (tasks', stats', executed) \<Rightarrow> (task # tasks', stats', executed)))"

definition cleanupTasks :: "Task list \<Rightarrow> Task list" where
  "cleanupTasks tasks =
     filter (\<lambda>task. \<not> (task_state task = TaskState_COMPLETED \<and> task_autoDelete task)) tasks"

text \<open>\<^verbatim>\<open>updateCPULoad\<close>; the quotient is computed in 32 bits and stored in the 8-bit
  \<open>m_cpuLoad\<close> before it is capped.\<close>

definition updateCPULoad :: "TaskScheduler \<Rightarrow> uint32_t \<Rightarrow> TaskScheduler" where
  "updateCPULoad s currentTime =
     (let elapsed = currentTime - m_lastUpdateTime s in
      if elapsed \<ge> 1000 then
        (let load = (ucast ((m_totalExecutionTime s * 100) div elapsed) :: uint8_t)
         in s\<lparr>m_cpuLoad := (if load > 100 then 100 else load),
              m_totalExecutionTime := 0,
              m_lastUpdateTime := currentTime\<rparr>)
      else s)"

text \<open>\<^verbatim>\<open>TaskScheduler::update\<close>. \<open>srt\<close> is \<^verbatim>\<open>std::sort\<close> with \<open>task_comp\<close>, \<open>currentTime\<close> the
  first reading of \<^verbatim>\<open>millis()\<close>, \<open>obs\<close> the executions, \<open>loadTime\<close> the reading taken by
  \<^verbatim>\<open>updateCPULoad\<close>. Besides the result code the model returns the executed tasks in order.\<close>

definition TaskScheduler_update ::
  "(Task list \<Rightarrow> Task list) \<Rightarrow> TaskScheduler \<Rightarrow> uint32_t \<Rightarrow> (nat \<Rightarrow> execution) \<Rightarrow> uint32_t
     \<Rightarrow> os_error_t \<times> Task list \<times> TaskScheduler" where
  "TaskScheduler_update srt s currentTime obs loadTime =
     (if \<not> ts_initialized s then (OS_ERROR_GENERIC, [], s)
      else
        (case run_ready currentTime currentTime obs 0 (srt (m_tasks s))
                (m_tasksExecuted s, m_tasksOverrun s, m_totalExecutionTime s) of
           (tasks', (tasksExecuted, tasksOverrun, totalExecutionTime), executed) \<Rightarrow>
             (OS_OK, executed,
              updateCPULoad
                (s\<lparr>m_tasks := cleanupTasks tasks',
                   m_tasksExecuted := tasksExecuted,
                   m_tasksOverrun := tasksOverrun,
                   m_totalExecutionTime := totalExecutionTime\<rparr>)
                loadTime)))"

text \<open>None of the first \<open>n\<close> executions of the pass exhausts the frame budget of 16 ms.\<close>

definition within_budget :: "uint32_t \<Rightarrow> (nat \<Rightarrow> execution) \<Rightarrow> nat \<Rightarrow> bool" where
  "within_budget frameStartTime obs n =
     list_all (\<lambda>k. \<not> frameNow (obs k) - frameStartTime > 16) [0..<n]"

text \<open>A task is due: the test of the loop.\<close>

definition due :: "uint32_t \<Rightarrow> Task \<Rightarrow> bool" where
  "due currentTime task =
     (task_state task = TaskState_READY \<and> currentTime \<ge> task_nextExecution task)"

text \<open>In the sequence of executions, \<open>a\<close> is executed and \<open>b\<close> is executed later.\<close>

fun executed_before :: "Task \<Rightarrow> Task \<Rightarrow> Task list \<Rightarrow> bool" where
  "executed_before a b [] = False"
| "executed_before a b (x # xs) = (x = a \<and> b \<in> set xs \<or> executed_before a b xs)"

section \<open>Applications (apps/base\_app.cpp)\<close>

datatype AppState =
    AppState_STOPPED
  | AppState_STARTING
  | AppState_RUNNING
  | AppState_PAUSED
  | AppState_STOPPING
  | AppState_ERROR

datatype AppPriority = APP_LOW | APP_NORMAL | APP_HIGH | APP_SYSTEM

text \<open>The members of \<^verbatim>\<open>BaseApp\<close>. \<open>initialize\<close>, \<open>shutdown\<close> and \<open>destroyUI\<close> are pure
  virtual; no application of the repository touches \<open>m_state\<close> in them, so a concrete
  application is described by the result codes its overrides return. \<open>start\<close>, \<open>pause\<close>,
  \<open>resume\<close> and \<open>stop\<close> are overridden nowhere. The calls of \<^verbatim>\<open>PUBLISH_EVENT\<close> in them queue
  an event on the event system and leave the application and its manager as they are.\<close>

record BaseApp =
  m_id :: string
  m_name :: string
  m_version :: string
  m_description :: string
  m_author :: string
  m_state :: AppState
  m_priority :: AppPriority
  m_startTime :: uint32_t
  m_memoryUsage :: size_t
  m_exitRequested :: bool
  m_uiContainer :: pointer
  initialize_result :: os_error_t
  shutdown_result :: os_error_t
  destroyUI_result :: os_error_t

definition isRunning :: "BaseApp \<Rightarrow> bool" where
  "isRunning app = (m_state app = AppState_RUNNING)"

definition isPaused :: "BaseApp \<Rightarrow> bool" where
  "isPaused app = (m_state app = AppState_PAUSED)"

definition BaseApp_resume :: "BaseApp \<Rightarrow> os_error_t \<times> BaseApp" where
  "BaseApp_resume app =
     (if m_state app \<noteq> AppState_PAUSED then (OS_ERROR_GENERIC, app)
      else (OS_OK, app\<lparr>m_state := AppState_RUNNING\<rparr>))"

definition BaseApp_start :: "BaseApp \<Rightarrow> uint32_t \<Rightarrow> os_error_t \<times> BaseApp" where
  "BaseApp_start app now =
     (if m_state app = AppState_RUNNING then (OS_OK, app)
      else if m_state app = AppState_PAUSED then BaseApp_resume app
      else (OS_OK, app\<lparr>m_startTime := now, m_exitRequested := False,
                        m_state := AppState_RUNNING\<rparr>))"

definition BaseApp_pause :: "BaseApp \<Rightarrow> os_error_t \<times> BaseApp" where
  "BaseApp_pause app =
     (if m_state app \<noteq> AppState_RUNNING then (OS_ERROR_GENERIC, app)
      else (OS_OK, app\<lparr>m_state := AppState_PAUSED\<rparr>))"

definition BaseApp_stop :: "BaseApp \<Rightarrow> os_error_t \<times> BaseApp" where
  "BaseApp_stop app =
     (if m_state app = AppState_STOPPED then (OS_OK, app)
      else (OS_OK, app\<lparr>m_state := AppState_STOPPED\<rparr>))"

section \<open>Application manager (apps/app\_manager.cpp)\<close>

subsection \<open>\<^verbatim>\<open>std::map\<close> with string keys\<close>

text \<open>A \<^verbatim>\<open>std::map<std::string, V>\<close> is the list of its entries in iteration order, that
  is by ascending key; \<^verbatim>\<open>begin()\<close> is the head of the list.\<close>

type_synonym 'v string_map = "(string \<times> 'v) list"

definition map_find :: "'v string_map \<Rightarrow> string \<Rightarrow> 'v option" where
  "map_find m k = map_of m k"

text \<open>\<^verbatim>\<open>m[k] = v\<close>\<close>

fun map_assign :: "string \<Rightarrow> 'v \<Rightarrow> 'v string_map \<Rightarrow> 'v string_map" where
  "map_assign k v [] = [(k, v)]"
| "map_assign k v ((k', v') # m) =
     (if k = k' then (k, v) # m
      else if k < k' then (k, v) # (k', v') # m
      else (k', v') # map_assign k v m)"

text \<open>\<^verbatim>\<open>m.erase(m.find(k))\<close> for a key that is present.\<close>

fun map_erase :: "string \<Rightarrow> 'v string_map \<Rightarrow> 'v string_map" where
  "map_erase k [] = []"
| "map_erase k ((k', v') # m) = (if k = k' then m else (k', v') # map_erase k m)"

text \<open>A change of the object that the entry of \<open>k\<close> points to.\<close>

fun map_modify :: "string \<Rightarrow> ('v \<Rightarrow> 'v) \<Rightarrow> 'v string_map \<Rightarrow> 'v string_map" where
  "map_modify k f [] = []"
| "map_modify k f ((k', v') # m) =
     (if k = k' then (k', f v') # m else (k', v') # map_modify k f m)"

subsection \<open>The manager\<close>

text \<open>A factory either yields an application object or fails (it returns null or throws:
  \<open>None\<close>). The entries of \<open>m_runningApps\<close> are \<^verbatim>\<open>unique_ptr\<close>s, \<open>None\<close> for a null pointer.\<close>

type_synonym AppFactory = "BaseApp option"

record AppManager =
  m_appFactories :: "AppFactory string_map"
  m_runningApps :: "BaseApp option string_map"
  m_currentAppId :: string
  m_maxConcurrentApps :: size_t
  m_totalLaunches :: uint32_t
  m_totalKills :: uint32_t
  m_lastCleanup :: uint32_t
  am_initialized :: bool

definition OS_MAX_APPS :: size_t where
  "OS_MAX_APPS = 12"

definition AppManager_new :: AppManager where
  "AppManager_new =
     \<lparr>m_appFactories = [], m_runningApps = [], m_currentAppId = [],
      m_maxConcurrentApps = OS_MAX_APPS, m_totalLaunches = 0, m_totalKills = 0,
      m_lastCleanup = 0, am_initialized = False\<rparr>"

definition AppManager_initialize :: "AppManager \<Rightarrow> uint32_t \<Rightarrow> os_error_t \<times> AppManager" where
  "AppManager_initialize s now =
     (if am_initialized s then (OS_OK, s)
      else (OS_OK, s\<lparr>m_lastCleanup := now, am_initialized := True\<rparr>))"

definition setMaxConcurrentApps :: "AppManager \<Rightarrow> size_t \<Rightarrow> AppManager" where
  "setMaxConcurrentApps s maxApps = s\<lparr>m_maxConcurrentApps := maxApps\<rparr>"

definition registerApp :: "AppManager \<Rightarrow> string \<Rightarrow> AppFactory option \<Rightarrow> os_error_t \<times> AppManager" where
  "registerApp s appId factory =
     (case factory of
        None \<Rightarrow> (OS_ERROR_INVALID_PARAM, s)
      | Some f \<Rightarrow>
          if \<not> am_initialized s \<or> appId = [] then (OS_ERROR_INVALID_PARAM, s)
          else if map_find (m_appFactories s) appId \<noteq> None then (OS_ERROR_GENERIC, s)
          else (OS_OK, s\<lparr>m_appFactories := map_assign appId f (m_appFactories s)\<rparr>))"

text \<open>\<^verbatim>\<open>getApp\<close>: the raw pointer of the entry, null when there is no entry.\<close>

definition getApp :: "AppManager \<Rightarrow> string \<Rightarrow> BaseApp option" where
  "getApp s appId = (case map_find (m_runningApps s) appId of None \<Rightarrow> None | Some p \<Rightarrow> p)"

definition getCurrentApp :: "AppManager \<Rightarrow> BaseApp option" where
  "getCurrentApp s = getApp s (m_currentAppId s)"

definition isAppRunning :: "AppManager \<Rightarrow> string \<Rightarrow> bool" where
  "isAppRunning s appId = (case getApp s appId of None \<Rightarrow> False | Some app \<Rightarrow> isRunning app)"

definition createApp :: "AppManager \<Rightarrow> string \<Rightarrow> BaseApp option" where
  "createApp s appId = (case map_find (m_appFactories s) appId of None \<Rightarrow> None | Some f \<Rightarrow> f)"

text \<open>A method called through the pointer held in the entry of \<open>appId\<close>.\<close>

definition on_app :: "string \<Rightarrow> (BaseApp \<Rightarrow> BaseApp) \<Rightarrow> AppManager \<Rightarrow> AppManager" where
  "on_app appId f s = s\<lparr>m_runningApps := map_modify appId (map_option f) (m_runningApps s)\<rparr>"

definition switchToApp :: "AppManager \<Rightarrow> string \<Rightarrow> os_error_t \<times> AppManager" where
  "switchToApp s appId =
     (if \<not> am_initialized s \<or> appId = [] then (OS_ERROR_INVALID_PARAM, s)
      else
        (case getApp s appId of
           None \<Rightarrow> (OS_ERROR_NOT_FOUND, s)
         | Some app \<Rightarrow>
             if \<not> isRunning app then (OS_ERROR_NOT_FOUND, s)
             else if m_currentAppId s = appId then (OS_OK, s)
             else
               (let s1 = (if m_currentAppId s \<noteq> [] then
                            (case getApp s (m_currentAppId s) of
                               None \<Rightarrow> s
                             | Some currentApp \<Rightarrow>
                                 if isRunning currentApp
                                 then on_app (m_currentAppId s) (\<lambda>a. snd (BaseApp_pause a)) s
                                 else s)
                          else s);
                    s2 = s1\<lparr>m_currentAppId := appId\<rparr>;
                    s3 = (case getApp s2 appId of
                            None \<Rightarrow> s2
                          | Some app' \<Rightarrow>
                              if isPaused app' then on_app appId (\<lambda>a. snd (BaseApp_resume a)) s2
                              else s2)
                in (OS_OK, s3))))"

text \<open>\<^verbatim>\<open>AppManager::launchApp\<close>; \<open>now\<close> is the reading of \<^verbatim>\<open>millis()\<close> in \<open>start\<close>. An
  application object that fails to initialise or to start is destroyed on return.\<close>

definition launchApp :: "AppManager \<Rightarrow> string \<Rightarrow> uint32_t \<Rightarrow> os_error_t \<times> AppManager" where
  "launchApp s appId now =
     (if \<not> am_initialized s \<or> appId = [] then (OS_ERROR_INVALID_PARAM, s)
      else if isAppRunning s appId then switchToApp s appId
      else if length (m_runningApps s) \<ge> unat (m_maxConcurrentApps s) then (OS_ERROR_BUSY, s)
      else
        (case createApp s appId of
           None \<Rightarrow> (OS_ERROR_GENERIC, s)
         | Some app \<Rightarrow>
             if initialize_result app \<noteq> OS_OK then (initialize_result app, s)
             else
               (case BaseApp_start app now of
                  (result, app') \<Rightarrow>
                    if result \<noteq> OS_OK then (result, s)
                    else
                      switchToApp
                        (s\<lparr>m_runningApps := map_assign appId (Some app') (m_runningApps s),
                           m_totalLaunches := m_totalLaunches s + 1\<rparr>)
                        appId)))"

definition pauseApp :: "AppManager \<Rightarrow> string \<Rightarrow> os_error_t \<times> AppManager" where
  "pauseApp s appId =
     (if \<not> am_initialized s then (OS_ERROR_GENERIC, s)
      else
        (case getApp s appId of
           None \<Rightarrow> (OS_ERROR_NOT_FOUND, s)
         | Some app \<Rightarrow> (fst (BaseApp_pause app), on_app appId (\<lambda>a. snd (BaseApp_pause a)) s)))"

definition resumeApp :: "AppManager \<Rightarrow> string \<Rightarrow> os_error_t \<times> AppManager" where
  "resumeApp s appId =
     (if \<not> am_initialized s then (OS_ERROR_GENERIC, s)
      else
        (case getApp s appId of
           None \<Rightarrow> (OS_ERROR_NOT_FOUND, s)
         | Some app \<Rightarrow> (fst (BaseApp_resume app), on_app appId (\<lambda>a. snd (BaseApp_resume a)) s)))"

text \<open>\<^verbatim>\<open>AppManager::killApp\<close>. \<open>stop\<close> and \<open>shutdown\<close> act on the application object, which
  is destroyed when its entry is erased.\<close>

definition killApp :: "AppManager \<Rightarrow> string \<Rightarrow> os_error_t \<times> AppManager" where
  "killApp s appId =
     (if \<not> am_initialized s \<or> appId = [] then (OS_ERROR_INVALID_PARAM, s)
      else
        (case map_find (m_runningApps s) appId of
           None \<Rightarrow> (OS_ERROR_NOT_FOUND, s)
         | Some app \<Rightarrow>
             (let s1 = s\<lparr>m_runningApps := map_erase appId (m_runningApps s),
                         m_totalKills := m_totalKills s + 1\<rparr>
              in if m_currentAppId s1 = appId then
                   (let s2 = s1\<lparr>m_currentAppId := []\<rparr>
                    in if m_runningApps s2 \<noteq> []
                       then (OS_OK, snd (switchToApp s2 (fst (hd (m_runningApps s2)))))
                       else (OS_OK, s2))
                 else (OS_OK, s1))))"

subsection \<open>Managers used in the examples\<close>

text \<open>A manager after \<open>initialize\<close>, its four arenas at \<open>0x1000\<close>, \<open>0x2000\<close>, \<open>0x3000\<close> and
  \<open>0x5000\<close>.\<close>

definition mm_fresh :: MemoryManager where
  "mm_fresh = snd (MemoryManager_initialize MemoryManager_new 0x1000 0x2000 0x3000 0x5000)"

text \<open>A call sequence that uses two pools and the heap and frees one block twice.\<close>

definition demo_calls :: "mm_call list" where
  "demo_calls =
     [Allocate 10 None 0 5 0, Allocate 2000 None 0 6 0x9000, Deallocate 0x1000,
      Deallocate 0x1000, Allocate 100 None 0 7 0]"

subsection \<open>States and events used in the examples\<close>

text \<open>A freshly initialised event system.\<close>

definition es_ready :: EventSystem where
  "es_ready = snd (EventSystem_initialize EventSystem_new)"

definition cb_returns :: EventCallback where
  "cb_returns = (\<lambda>event. Returns)"

definition event7 :: EventData where
  "event7 = \<lparr>event_type = 7, event_data = 0, event_dataSize = 0, event_timestamp = 0, event_senderId = 0\<rparr>"

text \<open>An event system whose queue holds 128 events.\<close>

definition es_full :: EventSystem where
  "es_full = es_ready\<lparr>m_eventQueue := replicate 128 event7\<rparr>"

text \<open>The listener with the given id that a subscription to event type 7 with priority 5
  creates.\<close>

definition listener5 :: "uint32_t \<Rightarrow> EventListener" where
  "listener5 i =
     \<lparr>listener_id = i, listener_eventType = 7, listener_callback = cb_returns,
      listener_priority = 5, listener_oneShot = False, listener_callCount = 0\<rparr>"

text \<open>The invariant of \<open>subscribe\<close>: every listener vector is in descending order of
  priority.\<close>

definition listeners_sorted :: "EventSystem \<Rightarrow> bool" where
  "listeners_sorted s =
     (\<forall>eventType ls. m_listeners s eventType = Some ls \<longrightarrow>
        sorted_wrt (\<lambda>a b. listener_priority a \<ge> listener_priority b) ls)"

subsection \<open>Tasks and executions used in the examples\<close>

text \<open>An execution of 1 ms, and one of 17 ms that exhausts the frame budget, in a pass
  that starts at 1000 ms.\<close>

definition quick :: execution where
  "quick = \<lparr>startTime = 1000, outcome = Returns, endTime = 1001, frameNow = 1001\<rparr>"

definition slow :: execution where
  "slow = \<lparr>startTime = 1000, outcome = Returns, endTime = 1017, frameNow = 1017\<rparr>"

text \<open>A READY task as \<open>scheduleOnce\<close> (period 0) or \<open>schedulePeriodic\<close> creates it.\<close>

definition mk_task :: "uint32_t \<Rightarrow> uint8_t \<Rightarrow> uint32_t \<Rightarrow> uint32_t \<Rightarrow> Task" where
  "mk_task i priority nextExecution period =
     \<lparr>task_id = i, task_priority = priority, task_state = TaskState_READY,
      task_nextExecution = nextExecution, task_period = period, task_maxRunTime = 50,
      task_actualRunTime = 0, task_executionCount = 0, task_name = None,
      task_autoDelete = (period = 0)\<rparr>"

text \<open>An initialised scheduler, and the scheduler after the given one-shot tasks
  (priorities) were scheduled at 900 ms without delay.\<close>

definition ts_ready :: TaskScheduler where
  "ts_ready = snd (TaskScheduler_initialize TaskScheduler_new 0)"

fun ts_once :: "TaskScheduler \<Rightarrow> uint8_t list \<Rightarrow> TaskScheduler" where
  "ts_once s [] = s"
| "ts_once s (priority # rest) = ts_once (snd (scheduleOnce s True priority 0 None 900)) rest"

text \<open>The tasks that \<open>ts_once ts_ready [1, 2, 3]\<close> holds: B with priority 1, A with
  priority 2, C with priority 3.\<close>

definition taskB :: Task where
  "taskB = mk_task 1 1 900 0"

definition taskA :: Task where
  "taskA = mk_task 2 2 900 0"

definition taskC :: Task where
  "taskC = mk_task 3 3 900 0"

text \<open>A periodic task with a period of one second, scheduled at 4294966700 ms, that is
  596 ms before the 32-bit millisecond clock wraps around (after 49.7 days); its run
  90 ms later; and the scheduler after that run.\<close>

definition ts_heartbeat :: TaskScheduler where
  "ts_heartbeat = snd (schedulePeriodic ts_ready True 1000 2 0 None 4294966700)"

definition heartbeat :: Task where
  "heartbeat = mk_task 1 2 4294966700 1000"

definition late_run :: execution where
  "late_run = \<lparr>startTime = 4294966790, outcome = Returns, endTime = 4294966796,
               frameNow = 4294966796\<rparr>"

definition next_run :: execution where
  "next_run = \<lparr>startTime = 4294966800, outcome = Returns, endTime = 4294966801,
               frameNow = 4294966801\<rparr>"

definition after_late_run :: TaskScheduler where
  "after_late_run =
     snd (snd (TaskScheduler_update (sort_keeping_ties task_comp) (ts_heartbeat)
                 4294966790 (\<lambda>k. late_run) 4294966796))"

subsection \<open>Applications and managers used in the examples\<close>

text \<open>An application object as a factory returns it.\<close>

definition demo_app :: "string \<Rightarrow> AppPriority \<Rightarrow> BaseApp" where
  "demo_app name priority =
     \<lparr>m_id = name, m_name = name, m_version = ''1.0'', m_description = [], m_author = [],
      m_state = AppState_STOPPED, m_priority = priority, m_startTime = 0, m_memoryUsage = 0,
      m_exitRequested = False, m_uiContainer = 0, initialize_result = OS_OK,
      shutdown_result = OS_OK, destroyUI_result = OS_OK\<rparr>"

text \<open>An initialised manager with the given ceiling and the applications "calc" and
  "clock" registered; the same after \<open>launchApp("calc")\<close>; and, with the default ceiling,
  after \<open>launchApp("calc")\<close> and \<open>launchApp("clock")\<close>.\<close>

definition am_registered :: "size_t \<Rightarrow> AppManager" where
  "am_registered ceiling =
     snd (registerApp
            (snd (registerApp
                    (setMaxConcurrentApps (snd (AppManager_initialize AppManager_new 0)) ceiling)
                    ''calc'' (Some (Some (demo_app ''calc'' APP_NORMAL)))))
            ''clock'' (Some (Some (demo_app ''clock'' APP_LOW))))"

definition am_calc :: "size_t \<Rightarrow> AppManager" where
  "am_calc ceiling = snd (launchApp (am_registered ceiling) ''calc'' 10)"

definition am_calc_clock :: AppManager where
  "am_calc_clock = snd (launchApp (am_calc 12) ''clock'' 20)"

text \<open>A third application "alarm" is registered; "alarm", "calc" and "clock" are launched
  in this order, which leaves "clock" in the foreground and the other two paused; then
  "calc" is resumed.\<close>

definition am_three :: AppManager where
  "am_three =
     snd (resumeApp
            (snd (launchApp
                    (snd (launchApp
                            (snd (launchApp
                                    (snd (registerApp (am_registered 12) ''alarm''
                                            (Some (Some (demo_app ''alarm'' APP_NORMAL)))))
                                    ''alarm'' 10))
                            ''calc'' 20))
                    ''clock'' 30))
            ''calc'')"

section \<open>Properties of the memory manager\<close>

lemma find_if_None_iff: "find_if P xs = None \<longleftrightarrow> (\<forall>x\<in>set xs. \<not> P x)"
  by (induction xs) auto

lemma find_if_Some:
  "find_if P xs = Some i \<Longrightarrow> i < length xs \<and> P (xs ! i) \<and> (\<forall>j<i. \<not> P (xs ! j))"
proof (induction xs arbitrary: i)
  case Nil
  then show ?case by simp
next
  case (Cons x xs)
  show ?case
  proof (cases "P x")
    case True
    with Cons.prems show ?thesis by simp
  next
    case False
    with Cons.prems obtain i' where i': "find_if P xs = Some i'" "i = Suc i'"
      by auto
    from Cons.IH [OF i'(1)] False i'(2) show ?thesis
      by (auto simp: less_Suc_eq_0_disj)
  qed
qed

subsection \<open>Deallocating an untracked pointer\<close>

text \<open>C6: for every pointer that is not in the registry of tracked blocks (it was never
  returned by \<open>allocate\<close>, or it has been deallocated already), \<open>deallocate\<close> returns failure
  and leaves the whole state of the allocator as it was.\<close>

theorem deallocate_untracked_fails_unchanged:
  "ptr \<notin> block_ptr ` set (m_activeBlocks s) \<Longrightarrow> MemoryManager_deallocate s ptr = (False, s)"
proof -
  assume "ptr \<notin> block_ptr ` set (m_activeBlocks s)"
  then have "\<forall>b\<in>set (m_activeBlocks s). block_ptr b \<noteq> ptr"
    by auto
  then have "findBlock s ptr = None"
    by (simp add: findBlock_def find_if_None_iff)
  then show ?thesis
    by (simp add: MemoryManager_deallocate_def)
qed

text \<open>In a freshly initialised manager no pointer is tracked: freeing one fails.\<close>

theorem deallocate_untracked_witness:
  "0x2000 \<notin> block_ptr ` set (m_activeBlocks mm_fresh) \<and>
   MemoryManager_deallocate mm_fresh 0x2000 = (False, mm_fresh)"
proof -
  have "0x2000 \<notin> block_ptr ` set (m_activeBlocks mm_fresh)"
    by (simp add: mm_fresh_def MemoryManager_initialize_def MemoryManager_new_def)
  then show ?thesis
    using deallocate_untracked_fails_unchanged [of "0x2000" mm_fresh] by simp
qed

subsection \<open>Address arithmetic\<close>

lemma apart_sym: "apart a m b n \<Longrightarrow> apart b n a m"
  by (auto simp: apart_def)

lemma slot_in_arena:
  assumes "i < unat (m_totalBlocks p)"
  shows "slot_addr p i + unat (m_blockSize p) \<le> unat (m_memory p) + pool_bytes p"
proof -
  have "Suc i \<le> unat (m_totalBlocks p)" using assms by simp
  then have "Suc i * unat (m_blockSize p) \<le> unat (m_totalBlocks p) * unat (m_blockSize p)"
    by (rule mult_le_mono1)
  then show ?thesis by (simp add: slot_addr_def pool_bytes_def mult.commute)
qed

lemma slot_word:
  assumes wf: "pool_wf p" and mem: "m_memory p \<noteq> 0" and i: "i < unat (m_totalBlocks p)"
  shows "unat (m_memory p + of_nat i * m_blockSize p) = slot_addr p i"
proof -
  have bound: "unat (m_memory p) + pool_bytes p \<le> 2 ^ 32"
    using wf mem by (simp add: pool_wf_def)
  have bs: "unat (m_blockSize p) \<noteq> 0"
    using wf mem by (simp add: pool_wf_def unat_eq_0)
  have in_arena: "slot_addr p i + unat (m_blockSize p) \<le> 2 ^ 32"
    using slot_in_arena [OF i] bound by simp
  then have small: "unat (m_memory p) + i * unat (m_blockSize p) < 2 ^ 32"
    using bs by (simp add: slot_addr_def)
  have "unat (m_totalBlocks p) < 2 ^ LENGTH(32)" by (rule unsigned_less)
  then have i32: "i < 2 ^ 32" using i by simp
  have "unat (of_nat i * m_blockSize p) = i * unat (m_blockSize p)"
    using small i32 by (simp add: unat_word_ariths unat_of_nat)
  then show ?thesis
    using small by (simp add: unat_word_ariths slot_addr_def)
qed

subsection \<open>What the pools do\<close>

lemma first_unused_Some:
  "first_unused us k = Some i \<Longrightarrow> k \<le> i \<and> i - k < length us \<and> \<not> us ! (i - k)"
proof (induction us arbitrary: k)
  case Nil
  then show ?case by simp
next
  case (Cons u us)
  show ?case
  proof (cases u)
    case False
    with Cons.prems show ?thesis by simp
  next
    case True
    with Cons.prems have "first_unused us (Suc k) = Some i" by simp
    from Cons.IH [OF this] show ?thesis
      by (auto simp: Suc_diff_le nth_Cons')
  qed
qed

lemma pool_allocate_cases:
  assumes "MemoryPool_allocate p = (x, p')"
  shows "(x = 0 \<and> p' = p) \<or>
         (\<exists>i. i < unat (m_totalBlocks p) \<and> i < length (m_blockUsed p) \<and> \<not> m_blockUsed p ! i \<and>
              x = m_memory p + of_nat i * m_blockSize p \<and> p' = take_slot p i)"
proof (cases "m_freeBlocks p = 0")
  case True
  with assms show ?thesis by (simp add: MemoryPool_allocate_def)
next
  case False
  show ?thesis
  proof (cases "first_unused (take (unat (m_totalBlocks p)) (m_blockUsed p)) 0")
    case None
    with False assms show ?thesis by (simp add: MemoryPool_allocate_def)
  next
    case (Some i)
    from first_unused_Some [OF Some]
    have "i < unat (m_totalBlocks p)" "i < length (m_blockUsed p)" "\<not> m_blockUsed p ! i"
      by auto
    with False Some assms show ?thesis
      by (auto simp: MemoryPool_allocate_def take_slot_def)
  qed
qed

lemma slot_not_null:
  assumes "pool_wf p" and "i < unat (m_totalBlocks p)"
  shows "m_memory p \<noteq> 0 \<and> m_memory p + of_nat i * m_blockSize p \<noteq> 0"
proof -
  have mem: "m_memory p \<noteq> 0"
    using assms by (auto simp: pool_wf_def split: if_splits)
  then have "unat (m_memory p) \<noteq> 0" by (simp add: unat_eq_0)
  then have "slot_addr p i \<noteq> 0" by (simp add: slot_addr_def)
  then have "unat (m_memory p + of_nat i * m_blockSize p) \<noteq> 0"
    using slot_word [OF assms(1) mem assms(2)] by simp
  then show ?thesis using mem by auto
qed

lemma allocate_pools_cases:
  assumes "list_all pool_wf pools" and "allocate_pools pools sz = (x, pools')"
  shows "(x = 0 \<and> pools' = pools) \<or>
         (\<exists>k i. k < length pools \<and> x \<noteq> 0 \<and> sz \<le> m_blockSize (pools ! k) \<and>
                i < unat (m_totalBlocks (pools ! k)) \<and> \<not> m_blockUsed (pools ! k) ! i \<and>
                x = m_memory (pools ! k) + of_nat i * m_blockSize (pools ! k) \<and>
                pools' = pools[k := take_slot (pools ! k) i])"
  using assms
proof (induction pools arbitrary: x pools')
  case Nil
  then show ?case by simp
next
  case (Cons pool pools)
  have wf: "pool_wf pool" and wfs: "list_all pool_wf pools"
    using Cons.prems(1) by simp_all
  obtain y rest where r: "allocate_pools pools sz = (y, rest)"
    by (cases "allocate_pools pools sz")
  have later: "(y = 0 \<and> rest = pools) \<or>
         (\<exists>k i. k < length pools \<and> y \<noteq> 0 \<and> sz \<le> m_blockSize (pools ! k) \<and>
                i < unat (m_totalBlocks (pools ! k)) \<and> \<not> m_blockUsed (pools ! k) ! i \<and>
                y = m_memory (pools ! k) + of_nat i * m_blockSize (pools ! k) \<and>
                rest = pools[k := take_slot (pools ! k) i])"
    using Cons.IH [OF wfs r] .
  have skip: ?case if "x = y" "pools' = pool # rest"
  proof -
    from later show ?thesis
    proof
      assume "y = 0 \<and> rest = pools"
      with that show ?thesis by simp
    next
      assume "\<exists>k i. k < length pools \<and> y \<noteq> 0 \<and> sz \<le> m_blockSize (pools ! k) \<and>
                i < unat (m_totalBlocks (pools ! k)) \<and> \<not> m_blockUsed (pools ! k) ! i \<and>
                y = m_memory (pools ! k) + of_nat i * m_blockSize (pools ! k) \<and>
                rest = pools[k := take_slot (pools ! k) i]"
      then obtain k i where "k < length pools" "y \<noteq> 0" "sz \<le> m_blockSize (pools ! k)"
        "i < unat (m_totalBlocks (pools ! k))" "\<not> m_blockUsed (pools ! k) ! i"
        "y = m_memory (pools ! k) + of_nat i * m_blockSize (pools ! k)"
        "rest = pools[k := take_slot (pools ! k) i]"
        by blast
      with that have "Suc k < length (pool # pools) \<and> x \<noteq> 0 \<and>
          sz \<le> m_blockSize ((pool # pools) ! Suc k) \<and>
          i < unat (m_totalBlocks ((pool # pools) ! Suc k)) \<and>
          \<not> m_blockUsed ((pool # pools) ! Suc k) ! i \<and>
          x = m_memory ((pool # pools) ! Suc k) + of_nat i * m_blockSize ((pool # pools) ! Suc k) \<and>
          pools' = (pool # pools)[Suc k := take_slot ((pool # pools) ! Suc k) i]"
        by simp
      then show ?thesis by blast
    qed
  qed
  show ?case
  proof (cases "sz \<le> m_blockSize pool \<and> m_freeBlocks pool > 0")
    case False
    with Cons.prems(2) r have "x = y" "pools' = pool # rest" by auto
    then show ?thesis by (rule skip)
  next
    case True
    obtain q pool' where a: "MemoryPool_allocate pool = (q, pool')"
      by (cases "MemoryPool_allocate pool")
    from pool_allocate_cases [OF a] show ?thesis
    proof
      assume "q = 0 \<and> pool' = pool"
      with True a r Cons.prems(2) have "x = y" "pools' = pool # rest" by auto
      then show ?thesis by (rule skip)
    next
      assume "\<exists>i. i < unat (m_totalBlocks pool) \<and> i < length (m_blockUsed pool) \<and>
                 \<not> m_blockUsed pool ! i \<and> q = m_memory pool + of_nat i * m_blockSize pool \<and>
                 pool' = take_slot pool i"
      then obtain i where i: "i < unat (m_totalBlocks pool)" "\<not> m_blockUsed pool ! i"
        "q = m_memory pool + of_nat i * m_blockSize pool" "pool' = take_slot pool i"
        by blast
      have "q \<noteq> 0" using slot_not_null [OF wf i(1)] i(3) by simp
      with True a Cons.prems(2) have "x = q" "pools' = pool' # pools" by auto
      with i True \<open>q \<noteq> 0\<close> have "0 < length (pool # pools) \<and> x \<noteq> 0 \<and>
          sz \<le> m_blockSize ((pool # pools) ! 0) \<and>
          i < unat (m_totalBlocks ((pool # pools) ! 0)) \<and>
          \<not> m_blockUsed ((pool # pools) ! 0) ! i \<and>
          x = m_memory ((pool # pools) ! 0) + of_nat i * m_blockSize ((pool # pools) ! 0) \<and>
          pools' = (pool # pools)[0 := take_slot ((pool # pools) ! 0) i]"
        by simp
      then show ?thesis by blast
    qed
  qed
qed

lemma pool_deallocate_cases:
  assumes "MemoryPool_deallocate p x = (r, p')"
  shows "(\<not> r \<and> p' = p) \<or>
         (r \<and> (\<exists>i. i < unat (m_totalBlocks p) \<and> m_blockUsed p ! i \<and> unat x = slot_addr p i \<and>
                    p' = free_slot p i))"
proof (cases r)
  case False
  with assms show ?thesis
    by (auto simp: MemoryPool_deallocate_def Let_def split: if_splits)
next
  case True
  let ?offset = "x - m_memory p"
  let ?i = "unat (?offset div m_blockSize p)"
  from assms True have ge: "m_memory p \<le> x"
    and md: "?offset mod m_blockSize p = 0"
    and lt: "?offset div m_blockSize p < m_totalBlocks p"
    and used: "m_blockUsed p ! ?i"
    and p': "p' = free_slot p ?i"
    by (auto simp: MemoryPool_deallocate_def Let_def free_slot_def split: if_splits)
  have off: "unat ?offset = unat x - unat (m_memory p)"
    using ge by (rule unat_sub)
  have le: "unat (m_memory p) \<le> unat x"
    using ge by (simp add: word_le_nat_alt)
  have "unat ?offset mod unat (m_blockSize p) = 0"
    using md by (metis unat_mod unat_0)
  then have "unat ?offset = unat ?offset div unat (m_blockSize p) * unat (m_blockSize p)"
    using div_mult_mod_eq [of "unat ?offset" "unat (m_blockSize p)"] by simp
  then have "unat ?offset = ?i * unat (m_blockSize p)"
    by (simp add: unat_div)
  then have "unat x = slot_addr p ?i"
    using off le by (simp add: slot_addr_def)
  moreover have "?i < unat (m_totalBlocks p)"
    using lt by (simp add: word_less_nat_alt)
  ultimately show ?thesis using True used p' by blast
qed

lemma deallocate_pools_cases:
  assumes "deallocate_pools pools x = (r, pools')"
  shows "(\<not> r \<and> pools' = pools) \<or>
         (r \<and> (\<exists>k i. k < length pools \<and> i < unat (m_totalBlocks (pools ! k)) \<and>
                      m_blockUsed (pools ! k) ! i \<and> unat x = slot_addr (pools ! k) i \<and>
                      pools' = pools[k := free_slot (pools ! k) i]))"
  using assms
proof (induction pools arbitrary: r pools')
  case Nil
  then show ?case by simp
next
  case (Cons pool pools)
  obtain f pool' where d: "MemoryPool_deallocate pool x = (f, pool')"
    by (cases "MemoryPool_deallocate pool x")
  from pool_deallocate_cases [OF d] show ?case
  proof
    assume no: "\<not> f \<and> pool' = pool"
    obtain r' rest where rec: "deallocate_pools pools x = (r', rest)"
      by (cases "deallocate_pools pools x")
    with no d Cons.prems have eq: "r = r'" "pools' = pool # rest" by auto
    from Cons.IH [OF rec] show ?thesis
    proof
      assume "\<not> r' \<and> rest = pools"
      with eq show ?thesis by simp
    next
      assume "r' \<and> (\<exists>k i. k < length pools \<and> i < unat (m_totalBlocks (pools ! k)) \<and>
                      m_blockUsed (pools ! k) ! i \<and> unat x = slot_addr (pools ! k) i \<and>
                      rest = pools[k := free_slot (pools ! k) i])"
      then obtain k i where "r'" "k < length pools" "i < unat (m_totalBlocks (pools ! k))"
        "m_blockUsed (pools ! k) ! i" "unat x = slot_addr (pools ! k) i"
        "rest = pools[k := free_slot (pools ! k) i]"
        by blast
      with eq have "r \<and> Suc k < length (pool # pools) \<and>
          i < unat (m_totalBlocks ((pool # pools) ! Suc k)) \<and>
          m_blockUsed ((pool # pools) ! Suc k) ! i \<and> unat x = slot_addr ((pool # pools) ! Suc k) i \<and>
          pools' = (pool # pools)[Suc k := free_slot ((pool # pools) ! Suc k) i]"
        by simp
      then show ?thesis by blast
    qed
  next
    assume yes: "f \<and> (\<exists>i. i < unat (m_totalBlocks pool) \<and> m_blockUsed pool ! i \<and>
                    unat x = slot_addr pool i \<and> pool' = free_slot pool i)"
    then obtain i where "i < unat (m_totalBlocks pool)" "m_blockUsed pool ! i"
      "unat x = slot_addr pool i" "pool' = free_slot pool i"
      by blast
    moreover from yes d Cons.prems have "r" "pools' = pool' # pools" by auto
    ultimately have "r \<and> 0 < length (pool # pools) \<and>
          i < unat (m_totalBlocks ((pool # pools) ! 0)) \<and>
          m_blockUsed ((pool # pools) ! 0) ! i \<and> unat x = slot_addr ((pool # pools) ! 0) i \<and>
          pools' = (pool # pools)[0 := free_slot ((pool # pools) ! 0) i]"
      by simp
    then show ?thesis by blast
  qed
qed

subsection \<open>Geometry of arenas and blocks\<close>

lemma slots_apart:
  assumes "i \<noteq> j" and "m \<le> unat (m_blockSize p)" and "n \<le> unat (m_blockSize p)"
  shows "apart (slot_addr p i) m (slot_addr p j) n"
proof (cases "i < j")
  case True
  then have "Suc i * unat (m_blockSize p) \<le> j * unat (m_blockSize p)"
    by (intro mult_le_mono1) simp
  then show ?thesis using assms(2) by (simp add: apart_def slot_addr_def)
next
  case False
  with assms(1) have "Suc j * unat (m_blockSize p) \<le> i * unat (m_blockSize p)"
    by (intro mult_le_mono1) simp
  then show ?thesis using assms(3) by (simp add: apart_def slot_addr_def)
qed

lemma apart_inside_right: "apart a m b n \<Longrightarrow> b \<le> b' \<Longrightarrow> b' + n' \<le> b + n \<Longrightarrow> apart a m b' n'"
  by (auto simp: apart_def)

lemma apart_inside_left: "apart a m b n \<Longrightarrow> a \<le> a' \<Longrightarrow> a' + m' \<le> a + m \<Longrightarrow> apart a' m' b n"
  by (auto simp: apart_def)

lemma arena_take_slot [simp]: "arena (take_slot p i) = arena p"
  by (simp add: arena_def take_slot_def pool_bytes_def)

lemma arena_free_slot [simp]: "arena (free_slot p i) = arena p"
  by (simp add: arena_def free_slot_def pool_bytes_def)

lemma pool_wf_take_slot: "pool_wf p \<Longrightarrow> pool_wf (take_slot p i)"
  by (auto simp: pool_wf_def take_slot_def pool_bytes_def split: if_splits)

lemma pool_wf_free_slot: "pool_wf p \<Longrightarrow> pool_wf (free_slot p i)"
  by (auto simp: pool_wf_def free_slot_def pool_bytes_def split: if_splits)

lemma pools_apart_arena: "pools_apart p q = (case (arena p, arena q) of ((a, m), (b, n)) \<Rightarrow> apart a m b n)"
  by (simp add: pools_apart_def arena_def)

lemma sorted_pools_update:
  assumes "sorted_wrt pools_apart pools" and "k < length pools" and "arena p' = arena (pools ! k)"
  shows "sorted_wrt pools_apart (pools[k := p'])"
proof -
  let ?R = "\<lambda>x y. case (x, y) of ((a, m), (b, n)) \<Rightarrow> apart a m b n"
  have "pools_apart = (\<lambda>p q. ?R (arena p) (arena q))"
    by (auto simp: fun_eq_iff pools_apart_def arena_def)
  then have eq: "sorted_wrt pools_apart ps = sorted_wrt ?R (map arena ps)" for ps
    by (simp add: sorted_wrt_map)
  have "map arena (pools[k := p']) = (map arena pools)[k := arena (pools ! k)]"
    using assms(3) by (simp add: map_update)
  also have "\<dots> = map arena pools"
    using assms(2) by (metis list_update_id map_update)
  finally show ?thesis using assms(1) by (simp add: eq)
qed

lemma sorted_wrt_nth_sym:
  assumes "sorted_wrt R xs" and "\<And>x y. R x y \<Longrightarrow> R y x"
    and "i < length xs" and "j < length xs" and "i \<noteq> j"
  shows "R (xs ! i) (xs ! j)"
proof (cases "i < j")
  case True
  with assms(1,4) show ?thesis by (simp add: sorted_wrt_iff_nth_less)
next
  case False
  with assms(5) have "j < i" by simp
  with assms(1,3) have "R (xs ! j) (xs ! i)" by (simp add: sorted_wrt_iff_nth_less)
  then show ?thesis by (rule assms(2))
qed

lemma pools_apart_sym: "pools_apart p q \<Longrightarrow> pools_apart q p"
  by (simp add: pools_apart_def apart_sym)

lemma blocks_apart_sym: "blocks_apart a b \<Longrightarrow> blocks_apart b a"
  by (simp add: blocks_apart_def apart_sym)

lemma same_address_not_apart:
  assumes "blocks_apart a b" and "block_size a \<noteq> 0" and "block_size b \<noteq> 0"
  shows "unat (block_ptr a) \<noteq> unat (block_ptr b)"
proof
  assume "unat (block_ptr a) = unat (block_ptr b)"
  with assms(1) have "unat (block_size a) = 0 \<or> unat (block_size b) = 0"
    by (auto simp: blocks_apart_def apart_def)
  with assms(2,3) show False by (simp add: unat_eq_0)
qed

subsection \<open>Blocks and pools\<close>

lemma fits_take_slot: "block_fits c q \<Longrightarrow> block_fits c (take_slot q i)"
  unfolding block_fits_def
proof (elim disjE exE conjE)
  assume "apart (unat (block_ptr c)) (unat (block_size c)) (unat (m_memory q)) (pool_bytes q)"
  then show "apart (unat (block_ptr c)) (unat (block_size c)) (unat (m_memory (take_slot q i)))
               (pool_bytes (take_slot q i)) \<or>
             (\<exists>j<unat (m_totalBlocks (take_slot q i)).
                 m_blockUsed (take_slot q i) ! j \<and> unat (block_ptr c) = slot_addr (take_slot q i) j \<and>
                 block_size c \<le> m_blockSize (take_slot q i))"
    by (simp add: take_slot_def pool_bytes_def)
next
  fix j
  assume "j < unat (m_totalBlocks q)" "m_blockUsed q ! j" "unat (block_ptr c) = slot_addr q j"
    "block_size c \<le> m_blockSize q"
  then have "j < unat (m_totalBlocks (take_slot q i)) \<and>
             m_blockUsed (take_slot q i) ! j \<and> unat (block_ptr c) = slot_addr (take_slot q i) j \<and>
             block_size c \<le> m_blockSize (take_slot q i)"
    by (cases "i < length (m_blockUsed q)")
      (auto simp: take_slot_def slot_addr_def nth_list_update list_update_beyond)
  then show "apart (unat (block_ptr c)) (unat (block_size c)) (unat (m_memory (take_slot q i)))
               (pool_bytes (take_slot q i)) \<or>
             (\<exists>j<unat (m_totalBlocks (take_slot q i)).
                 m_blockUsed (take_slot q i) ! j \<and> unat (block_ptr c) = slot_addr (take_slot q i) j \<and>
                 block_size c \<le> m_blockSize (take_slot q i))"
    by blast
qed

lemma fits_free_slot:
  assumes "block_fits c q" and "unat (block_ptr c) \<noteq> slot_addr q i"
  shows "block_fits c (free_slot q i)"
  using assms(1) unfolding block_fits_def
proof (elim disjE exE conjE)
  assume "apart (unat (block_ptr c)) (unat (block_size c)) (unat (m_memory q)) (pool_bytes q)"
  then show "apart (unat (block_ptr c)) (unat (block_size c)) (unat (m_memory (free_slot q i)))
               (pool_bytes (free_slot q i)) \<or>
             (\<exists>j<unat (m_totalBlocks (free_slot q i)).
                 m_blockUsed (free_slot q i) ! j \<and> unat (block_ptr c) = slot_addr (free_slot q i) j \<and>
                 block_size c \<le> m_blockSize (free_slot q i))"
    by (simp add: free_slot_def pool_bytes_def)
next
  fix j
  assume j: "j < unat (m_totalBlocks q)" "m_blockUsed q ! j" "unat (block_ptr c) = slot_addr q j"
    "block_size c \<le> m_blockSize q"
  with assms(2) have "j \<noteq> i" by auto
  with j have "j < unat (m_totalBlocks (free_slot q i)) \<and>
             m_blockUsed (free_slot q i) ! j \<and> unat (block_ptr c) = slot_addr (free_slot q i) j \<and>
             block_size c \<le> m_blockSize (free_slot q i)"
    by (simp add: free_slot_def slot_addr_def)
  then show "apart (unat (block_ptr c)) (unat (block_size c)) (unat (m_memory (free_slot q i)))
               (pool_bytes (free_slot q i)) \<or>
             (\<exists>j<unat (m_totalBlocks (free_slot q i)).
                 m_blockUsed (free_slot q i) ! j \<and> unat (block_ptr c) = slot_addr (free_slot q i) j \<and>
                 block_size c \<le> m_blockSize (free_slot q i))"
    by blast
qed

text \<open>A block handed out from block \<open>i\<close> of pool \<open>q\<close>.\<close>

lemma new_slot_block:
  assumes wf: "pool_wf q" and i: "i < unat (m_totalBlocks q)"
    and at: "block_ptr nb = m_memory q + of_nat i * m_blockSize q"
    and sz: "block_size nb \<le> m_blockSize q"
  shows "unat (block_ptr nb) = slot_addr q i"
    and "unat (m_memory q) \<le> unat (block_ptr nb)"
    and "unat (block_ptr nb) + unat (block_size nb) \<le> unat (m_memory q) + pool_bytes q"
    and "unat (m_memory q) + pool_bytes q \<le> 2 ^ 32"
    and "block_fits nb (take_slot q i)"
proof -
  have mem: "m_memory q \<noteq> 0" using slot_not_null [OF wf i] by simp
  show a: "unat (block_ptr nb) = slot_addr q i"
    using slot_word [OF wf mem i] at by simp
  then show "unat (m_memory q) \<le> unat (block_ptr nb)"
    by (simp add: slot_addr_def)
  have s: "unat (block_size nb) \<le> unat (m_blockSize q)"
    using sz by (simp add: word_le_nat_alt)
  then show "unat (block_ptr nb) + unat (block_size nb) \<le> unat (m_memory q) + pool_bytes q"
    using slot_in_arena [OF i] a by simp
  show "unat (m_memory q) + pool_bytes q \<le> 2 ^ 32"
    using wf mem by (simp add: pool_wf_def)
  have len: "i < length (m_blockUsed q)"
    using wf mem i by (simp add: pool_wf_def)
  have "i < unat (m_totalBlocks (take_slot q i)) \<and> m_blockUsed (take_slot q i) ! i \<and>
        unat (block_ptr nb) = slot_addr (take_slot q i) i \<and>
        block_size nb \<le> m_blockSize (take_slot q i)"
    using i a sz len by (simp add: take_slot_def slot_addr_def)
  then show "block_fits nb (take_slot q i)"
    unfolding block_fits_def by blast
qed

lemma old_block_apart_from_new:
  assumes wf: "pool_wf q" and i: "i < unat (m_totalBlocks q)" and free: "\<not> m_blockUsed q ! i"
    and at: "block_ptr nb = m_memory q + of_nat i * m_blockSize q"
    and sz: "block_size nb \<le> m_blockSize q"
    and c: "block_fits c q"
  shows "blocks_apart c nb"
  using c unfolding block_fits_def
proof (elim disjE exE conjE)
  assume "apart (unat (block_ptr c)) (unat (block_size c)) (unat (m_memory q)) (pool_bytes q)"
  then show ?thesis
    unfolding blocks_apart_def
    using new_slot_block(2,3) [OF wf i at sz] by (rule apart_inside_right)
next
  fix j
  assume j: "j < unat (m_totalBlocks q)" "m_blockUsed q ! j" "unat (block_ptr c) = slot_addr q j"
    "block_size c \<le> m_blockSize q"
  with free have "j \<noteq> i" by auto
  moreover have "unat (block_size c) \<le> unat (m_blockSize q)"
    using j(4) by (simp add: word_le_nat_alt)
  moreover have "unat (block_size nb) \<le> unat (m_blockSize q)"
    using sz by (simp add: word_le_nat_alt)
  ultimately have "apart (slot_addr q j) (unat (block_size c)) (slot_addr q i) (unat (block_size nb))"
    by (rule slots_apart)
  then show ?thesis
    using j(3) new_slot_block(1) [OF wf i at sz] by (simp add: blocks_apart_def)
qed

lemma new_block_other_pool:
  assumes wf: "pool_wf q" and i: "i < unat (m_totalBlocks q)"
    and at: "block_ptr nb = m_memory q + of_nat i * m_blockSize q"
    and sz: "block_size nb \<le> m_blockSize q"
    and pq: "pools_apart q p"
  shows "block_fits nb p"
proof -
  have "apart (unat (m_memory q)) (pool_bytes q) (unat (m_memory p)) (pool_bytes p)"
    using pq by (simp add: pools_apart_def)
  then have "apart (unat (block_ptr nb)) (unat (block_size nb)) (unat (m_memory p)) (pool_bytes p)"
    using new_slot_block(2,3) [OF wf i at sz] by (rule apart_inside_left)
  then show ?thesis by (simp add: block_fits_def)
qed

subsection \<open>The invariant is kept\<close>

lemma mm_inv_extend:
  assumes inv: "mm_inv s"
    and wf: "list_all pool_wf pools'" and pa: "sorted_wrt pools_apart pools'"
    and ok: "block_ok nb"
    and ap: "\<forall>c \<in> set (m_activeBlocks s). blocks_apart c nb"
    and old: "\<forall>c \<in> set (m_activeBlocks s). \<forall>p \<in> set pools'. block_fits c p"
    and new: "\<forall>p \<in> set pools'. block_fits nb p"
  shows "mm_inv (s\<lparr>m_pools := pools',
                   m_activeBlocks := m_activeBlocks s @ [nb],
                   m_totalAllocated := m_totalAllocated s + block_size nb,
                   m_allocationCount := ac,
                   m_peakAllocated := pk\<rparr>)"
  using assms by (auto simp: mm_inv_def sorted_wrt_append)

lemma allocate_preserves:
  assumes inv: "mm_inv s"
    and heap: "heap_call_ok s (Allocate sz file line now heap)"
    and al: "MemoryManager_allocate s sz file line now heap = (x, s')"
  shows "mm_inv s' \<and>
         (if x = 0 then m_activeBlocks s' = m_activeBlocks s
          else \<exists>nb. m_activeBlocks s' = m_activeBlocks s @ [nb] \<and> tracked nb = (x, sz))"
proof (cases "sz = 0")
  case True
  with al inv show ?thesis by (simp add: MemoryManager_allocate_def)
next
  case nz: False
  from inv have init: "mm_initialized s"
    and wfs: "list_all pool_wf (m_pools s)" and pas: "sorted_wrt pools_apart (m_pools s)"
    and fits: "\<forall>c \<in> set (m_activeBlocks s). \<forall>p \<in> set (m_pools s). block_fits c p"
    by (simp_all add: mm_inv_def)
  obtain p pools' where afp: "allocate_from_pools s sz = (p, pools')"
    by (cases "allocate_from_pools s sz")
  let ?nb = "\<lparr>block_ptr = x, block_size = sz, block_timestamp = now,
              block_file = file, block_line = line, block_inUse = True\<rparr>"
  let ?total = "m_totalAllocated s + sz"
  let ?s' = "s\<lparr>m_pools := pools',
               m_activeBlocks := m_activeBlocks s @ [?nb],
               m_totalAllocated := m_totalAllocated s + block_size ?nb,
               m_allocationCount := m_allocationCount s + 1,
               m_peakAllocated := (if ?total > m_peakAllocated s then ?total else m_peakAllocated s)\<rparr>"
  have x_def: "x = (if p = 0 then heap else p)"
    using al init nz afp by (auto simp: MemoryManager_allocate_def Let_def split: if_splits)
  have success: "s' = ?s'" if "x \<noteq> 0"
    using al init nz afp that by (auto simp: MemoryManager_allocate_def Let_def split: if_splits)
  have failure: "s' = s\<lparr>m_pools := pools'\<rparr>" if "x = 0"
    using al init nz afp that by (auto simp: MemoryManager_allocate_def Let_def split: if_splits)
  have tr: "tracked ?nb = (x, sz)" by (simp add: tracked_def)
  have pool_cases: "(p = 0 \<and> pools' = m_pools s) \<or>
         (\<exists>k i. k < length (m_pools s) \<and> p \<noteq> 0 \<and> sz \<le> m_blockSize (m_pools s ! k) \<and>
                i < unat (m_totalBlocks (m_pools s ! k)) \<and> \<not> m_blockUsed (m_pools s ! k) ! i \<and>
                p = m_memory (m_pools s ! k) + of_nat i * m_blockSize (m_pools s ! k) \<and>
                pools' = (m_pools s)[k := take_slot (m_pools s ! k) i])"
  proof (cases "sz \<le> 1024")
    case True
    with afp have "allocate_pools (m_pools s) sz = (p, pools')"
      by (simp add: allocate_from_pools_def)
    from allocate_pools_cases [OF wfs this] show ?thesis .
  next
    case False
    with afp show ?thesis by (simp add: allocate_from_pools_def)
  qed
  from pool_cases show ?thesis
  proof
    assume none: "p = 0 \<and> pools' = m_pools s"
    show ?thesis
    proof (cases "heap = 0")
      case True
      with none x_def have "x = 0" by simp
      with failure none have "s' = s" by simp
      with inv \<open>x = 0\<close> show ?thesis by simp
    next
      case False
      with none x_def have x: "x = heap" "x \<noteq> 0" by simp_all
      have "heap_answer_ok s sz heap"
        using heap init nz afp none by simp
      with False have bound: "unat heap + unat sz \<le> 2 ^ 32"
        and off_pools: "\<forall>q \<in> set (m_pools s).
              apart (unat heap) (unat sz) (unat (m_memory q)) (pool_bytes q)"
        and off_blocks: "\<forall>b \<in> set (m_activeBlocks s).
              apart (unat heap) (unat sz) (unat (block_ptr b)) (unat (block_size b))"
        by (simp_all add: heap_answer_ok_def list_all_iff)
      have ok: "block_ok ?nb"
        using x nz bound by (simp add: block_ok_def)
      have ap: "\<forall>c \<in> set (m_activeBlocks s). blocks_apart c ?nb"
        using off_blocks x by (auto simp: blocks_apart_def intro: apart_sym)
      have new: "\<forall>q \<in> set (m_pools s). block_fits ?nb q"
        using off_pools x by (simp add: block_fits_def)
      have "mm_inv ?s'"
        using mm_inv_extend [OF inv _ _ ok ap _ _, of pools'] wfs pas fits new none by simp
      with success [OF x(2)] x(2) tr show ?thesis by auto
    qed
  next
    assume "\<exists>k i. k < length (m_pools s) \<and> p \<noteq> 0 \<and> sz \<le> m_blockSize (m_pools s ! k) \<and>
                i < unat (m_totalBlocks (m_pools s ! k)) \<and> \<not> m_blockUsed (m_pools s ! k) ! i \<and>
                p = m_memory (m_pools s ! k) + of_nat i * m_blockSize (m_pools s ! k) \<and>
                pools' = (m_pools s)[k := take_slot (m_pools s ! k) i]"
    then obtain k i where k: "k < length (m_pools s)" and pnz: "p \<noteq> 0"
      and fit: "sz \<le> m_blockSize (m_pools s ! k)"
      and i: "i < unat (m_totalBlocks (m_pools s ! k))"
      and free: "\<not> m_blockUsed (m_pools s ! k) ! i"
      and p: "p = m_memory (m_pools s ! k) + of_nat i * m_blockSize (m_pools s ! k)"
      and pools': "pools' = (m_pools s)[k := take_slot (m_pools s ! k) i]"
      by blast
    let ?q = "m_pools s ! k"
    have x: "x = p" "x \<noteq> 0" using x_def pnz by simp_all
    have q_in: "?q \<in> set (m_pools s)" using k by simp
    have wfq: "pool_wf ?q" using wfs q_in by (simp add: list_all_iff)
    have at: "block_ptr ?nb = m_memory ?q + of_nat i * m_blockSize ?q"
      using x p by simp
    have szq: "block_size ?nb \<le> m_blockSize ?q" using fit by simp
    note geo = new_slot_block [OF wfq i at szq]
    have ok: "block_ok ?nb"
      using x nz geo(3,4) by (simp add: block_ok_def)
    have wf': "list_all pool_wf pools'"
      unfolding pools' list_all_iff
      using wfs pool_wf_take_slot [OF wfq, of i] set_update_subset_insert [of "m_pools s" k]
      by (auto simp: list_all_iff)
    have pa': "sorted_wrt pools_apart pools'"
      unfolding pools' using pas k by (rule sorted_pools_update) simp
    have ap: "\<forall>c \<in> set (m_activeBlocks s). blocks_apart c ?nb"
      using old_block_apart_from_new [OF wfq i free at szq] fits q_in by blast
    have old: "\<forall>c \<in> set (m_activeBlocks s). \<forall>r \<in> set pools'. block_fits c r"
    proof (intro ballI)
      fix c r
      assume c: "c \<in> set (m_activeBlocks s)" and "r \<in> set pools'"
      then have "r = take_slot ?q i \<or> r \<in> set (m_pools s)"
        using set_update_subset_insert [of "m_pools s" k] by (auto simp: pools')
      then show "block_fits c r"
        using fits c q_in fits_take_slot by blast
    qed
    have new: "\<forall>r \<in> set pools'. block_fits ?nb r"
    proof
      fix r
      assume "r \<in> set pools'"
      then obtain j where j: "j < length (m_pools s)" "r = pools' ! j"
        by (auto simp: in_set_conv_nth pools')
      show "block_fits ?nb r"
      proof (cases "j = k")
        case True
        with j k have "r = take_slot ?q i" by (simp add: pools')
        with geo(5) show ?thesis by simp
      next
        case False
        with j have r: "r = m_pools s ! j" by (simp add: pools')
        have "pools_apart ?q r"
          unfolding r using pas pools_apart_sym k j(1) False
          by (intro sorted_wrt_nth_sym [where R = pools_apart]) auto
        with new_block_other_pool [OF wfq i at szq] show ?thesis .
      qed
    qed
    have "mm_inv ?s'"
      by (rule mm_inv_extend [OF inv wf' pa' ok ap old new])
    with success [OF x(2)] x(2) tr show ?thesis by auto
  qed
qed

lemma erase_split:
  assumes "it < length bs"
  shows "bs = take it bs @ bs ! it # drop (Suc it) bs"
    and "vector_erase bs it = take it bs @ drop (Suc it) bs"
  using assms by (simp_all add: id_take_nth_drop [symmetric] vector_erase_def)

lemma deallocate_preserves:
  assumes inv: "mm_inv s" and de: "MemoryManager_deallocate s x = (ok, s')"
  shows "mm_inv s' \<and>
         (if ok
          then \<exists>it. it < length (m_activeBlocks s) \<and> block_ptr (m_activeBlocks s ! it) = x \<and>
                    m_activeBlocks s' = vector_erase (m_activeBlocks s) it
          else s' = s)"
proof (cases "x = 0 \<or> \<not> mm_initialized s \<or> findBlock s x = None")
  case True
  with de have "\<not> ok" "s' = s"
    by (auto simp: MemoryManager_deallocate_def split: if_splits)
  with inv show ?thesis by simp
next
  case False
  then obtain it where fb: "findBlock s x = Some it" and init: "mm_initialized s" and xnz: "x \<noteq> 0"
    by auto
  let ?bs = "m_activeBlocks s"
  let ?b = "?bs ! it"
  from find_if_Some [OF fb [unfolded findBlock_def]]
  have it: "it < length ?bs" and bx: "block_ptr ?b = x" by simp_all
  obtain f pools' where dp: "deallocate_pools (m_pools s) x = (f, pools')"
    by (cases "deallocate_pools (m_pools s) x")
  let ?s' = "s\<lparr>m_pools := pools',
               m_totalAllocated := m_totalAllocated s - block_size ?b,
               m_deallocationCount := m_deallocationCount s + 1,
               m_activeBlocks := vector_erase ?bs it\<rparr>"
  have res: "ok" "s' = ?s'"
    using de fb init xnz dp by (auto simp: MemoryManager_deallocate_def Let_def)
  from inv have wfs: "list_all pool_wf (m_pools s)" and pas: "sorted_wrt pools_apart (m_pools s)"
    and oks: "list_all block_ok ?bs" and bas: "sorted_wrt blocks_apart ?bs"
    and fits: "\<forall>c \<in> set ?bs. \<forall>p \<in> set (m_pools s). block_fits c p"
    and tot: "m_totalAllocated s = sum_list (map block_size ?bs)"
    by (simp_all add: mm_inv_def)
  let ?xs = "take it ?bs" and ?ys = "drop (Suc it) ?bs"
  note split = erase_split [OF it]
  have rest: "set (vector_erase ?bs it) \<subseteq> set ?bs"
    unfolding split(2) by (auto dest: in_set_takeD in_set_dropD)
  have sorted_split: "sorted_wrt blocks_apart (?xs @ ?b # ?ys)"
    using bas split(1) by simp
  then have bas': "sorted_wrt blocks_apart (vector_erase ?bs it)"
    unfolding split(2) by (auto simp: sorted_wrt_append)
  have away: "blocks_apart c ?b" if "c \<in> set (vector_erase ?bs it)" for c
    using sorted_split that unfolding split(2)
    by (auto simp: sorted_wrt_append intro: blocks_apart_sym)
  have b_ok: "block_ok ?b" using oks it by (simp add: list_all_iff)
  have elsewhere: "unat (block_ptr c) \<noteq> unat x" if "c \<in> set (vector_erase ?bs it)" for c
  proof -
    have "block_ok c" using that rest oks by (auto simp: list_all_iff)
    with same_address_not_apart [OF away [OF that]] b_ok bx show ?thesis
      by (simp add: block_ok_def)
  qed
  have oks': "list_all block_ok (vector_erase ?bs it)"
    using oks rest by (auto simp: list_all_iff)
  have "sum_list (map block_size ?bs) =
          sum_list (map block_size ?xs) + block_size ?b + sum_list (map block_size ?ys)"
    by (subst split(1)) simp
  then have tot': "m_totalAllocated s - block_size ?b = sum_list (map block_size (vector_erase ?bs it))"
    unfolding split(2) tot by simp
  have pools_ok: "list_all pool_wf pools' \<and> sorted_wrt pools_apart pools' \<and>
        (\<forall>c \<in> set (vector_erase ?bs it). \<forall>p \<in> set pools'. block_fits c p)"
    using deallocate_pools_cases [OF dp]
  proof
    assume "\<not> f \<and> pools' = m_pools s"
    with wfs pas fits rest show ?thesis by auto
  next
    assume "f \<and> (\<exists>k i. k < length (m_pools s) \<and> i < unat (m_totalBlocks (m_pools s ! k)) \<and>
                      m_blockUsed (m_pools s ! k) ! i \<and> unat x = slot_addr (m_pools s ! k) i \<and>
                      pools' = (m_pools s)[k := free_slot (m_pools s ! k) i])"
    then obtain k i where k: "k < length (m_pools s)"
      and at: "unat x = slot_addr (m_pools s ! k) i"
      and pools': "pools' = (m_pools s)[k := free_slot (m_pools s ! k) i]"
      by blast
    let ?q = "m_pools s ! k"
    have q_in: "?q \<in> set (m_pools s)" using k by simp
    have wfq: "pool_wf ?q" using wfs q_in by (simp add: list_all_iff)
    have wf': "list_all pool_wf pools'"
      unfolding pools' list_all_iff
      using wfs pool_wf_free_slot [OF wfq, of i] set_update_subset_insert [of "m_pools s" k]
      by (auto simp: list_all_iff)
    have pa': "sorted_wrt pools_apart pools'"
      unfolding pools' using pas k by (rule sorted_pools_update) simp
    have "block_fits c r" if c: "c \<in> set (vector_erase ?bs it)" and r: "r \<in> set pools'" for c r
    proof -
      have c_in: "c \<in> set ?bs" using c rest by auto
      from r have "r = free_slot ?q i \<or> r \<in> set (m_pools s)"
        using set_update_subset_insert [of "m_pools s" k] by (auto simp: pools')
      then show ?thesis
      proof
        assume "r = free_slot ?q i"
        moreover have "block_fits c ?q" using fits c_in q_in by blast
        moreover have "unat (block_ptr c) \<noteq> slot_addr ?q i"
          using elsewhere [OF c] at by simp
        ultimately show ?thesis by (simp add: fits_free_slot)
      next
        assume "r \<in> set (m_pools s)"
        with fits c_in show ?thesis by blast
      qed
    qed
    with wf' pa' show ?thesis by blast
  qed
  have "mm_inv ?s'"
    using pools_ok oks' bas' tot' init by (simp add: mm_inv_def)
  with res it bx show ?thesis by auto
qed

subsection \<open>What the invariant gives\<close>

lemma disjoint_blocks_card:
  "sorted_wrt blocks_apart bs \<Longrightarrow>
   card (\<Union>b \<in> set bs. {unat (block_ptr b) ..< unat (block_ptr b) + unat (block_size b)}) =
     sum_list (map (\<lambda>b. unat (block_size b)) bs)"
proof (induction bs)
  case Nil
  then show ?case by simp
next
  case (Cons b bs)
  let ?I = "\<lambda>b. {unat (block_ptr b) ..< unat (block_ptr b) + unat (block_size b)}"
  let ?U = "\<Union>c \<in> set bs. ?I c"
  have "?I b \<inter> ?I c = {}" if "c \<in> set bs" for c
  proof -
    from Cons.prems that have "blocks_apart b c" by simp
    then show ?thesis by (auto simp: blocks_apart_def apart_def)
  qed
  then have disj: "?I b \<inter> ?U = {}" by blast
  have fin: "finite (?I b)" "finite ?U" by simp_all
  have "card (?I b \<union> ?U) = card (?I b) + card ?U"
    using fin disj by (rule card_Un_disjoint)
  moreover have "card ?U = sum_list (map (\<lambda>b. unat (block_size b)) bs)"
    using Cons by simp
  ultimately show ?case by simp
qed

lemma tracked_sizes_bounded:
  assumes "sorted_wrt blocks_apart bs" and "list_all block_ok bs"
  shows "sum_list (map (\<lambda>b. unat (block_size b)) bs) < 2 ^ 32"
proof -
  let ?U = "\<Union>b \<in> set bs. {unat (block_ptr b) ..< unat (block_ptr b) + unat (block_size b)}"
  have "?U \<subseteq> {1 ..< 2 ^ 32}"
  proof
    fix a
    assume "a \<in> ?U"
    then obtain b where b: "b \<in> set bs" "unat (block_ptr b) \<le> a"
      "a < unat (block_ptr b) + unat (block_size b)"
      by auto
    from assms(2) b(1) have "block_ptr b \<noteq> 0" "unat (block_ptr b) + unat (block_size b) \<le> 2 ^ 32"
      by (simp_all add: list_all_iff block_ok_def)
    then have "1 \<le> unat (block_ptr b)" "unat (block_ptr b) + unat (block_size b) \<le> 2 ^ 32"
      by (simp_all add: unat_gt_0 Suc_le_eq)
    with b(2,3) show "a \<in> {1 ..< 2 ^ 32}" by simp
  qed
  then have "card ?U \<le> card {1::nat ..< 2 ^ 32}"
    by (intro card_mono) simp_all
  then show ?thesis
    using disjoint_blocks_card [OF assms(1)] by simp
qed

lemma unat_sum_list:
  fixes f :: "'a \<Rightarrow> 32 word"
  shows "sum_list (map (\<lambda>b. unat (f b)) bs) < 2 ^ 32 \<Longrightarrow>
         unat (sum_list (map f bs)) = sum_list (map (\<lambda>b. unat (f b)) bs)"
proof (induction bs)
  case Nil
  then show ?case by simp
next
  case (Cons b bs)
  then have "unat (sum_list (map f bs)) = sum_list (map (\<lambda>b. unat (f b)) bs)" by simp
  with Cons.prems show ?case by (simp add: unat_word_ariths)
qed

lemma count_le_sizes:
  "list_all block_ok bs \<Longrightarrow> length bs \<le> sum_list (map (\<lambda>b. unat (block_size b)) bs)"
proof (induction bs)
  case Nil
  then show ?case by simp
next
  case (Cons b bs)
  then have "block_size b \<noteq> 0" by (simp add: block_ok_def)
  then have "1 \<le> unat (block_size b)" by (simp add: unat_gt_0 Suc_le_eq)
  with Cons show ?case by simp
qed

lemma leak_count:
  "fold (\<lambda>block leakCount. if block_inUse block then leakCount + 1 else leakCount) bs (n :: size_t) =
     n + of_nat (length (filter block_inUse bs))"
  by (induction bs arbitrary: n) simp_all

lemma distinct_pointers:
  "sorted_wrt blocks_apart bs \<Longrightarrow> list_all block_ok bs \<Longrightarrow> distinct (map block_ptr bs)"
proof (induction bs)
  case Nil
  then show ?case by simp
next
  case (Cons b bs)
  have "block_ptr c \<noteq> block_ptr b" if "c \<in> set bs" for c
  proof -
    from Cons.prems that have "blocks_apart b c" "block_size b \<noteq> 0" "block_size c \<noteq> 0"
      by (simp_all add: list_all_iff block_ok_def)
    from same_address_not_apart [OF this] show ?thesis by auto
  qed
  then have "block_ptr b \<notin> block_ptr ` set bs" by force
  moreover have "distinct (map block_ptr bs)" using Cons by simp
  ultimately show ?case by simp
qed

text \<open>In a state that satisfies the invariant, the total and the leak count are those of
  the tracked blocks, without wrap-around.\<close>

lemma mm_inv_counts:
  assumes "mm_inv s"
  shows "unat (getTotalAllocated s) = sum_list (map (unat \<circ> snd) (map tracked (m_activeBlocks s)))"
    and "unat (checkLeaks s) = length (map tracked (m_activeBlocks s))"
proof -
  let ?bs = "m_activeBlocks s"
  from assms have oks: "list_all block_ok ?bs" and bas: "sorted_wrt blocks_apart ?bs"
    and tot: "m_totalAllocated s = sum_list (map block_size ?bs)"
    by (simp_all add: mm_inv_def)
  have small: "sum_list (map (\<lambda>b. unat (block_size b)) ?bs) < 2 ^ 32"
    using bas oks by (rule tracked_sizes_bounded)
  have "(unat \<circ> snd) \<circ> tracked = (\<lambda>b. unat (block_size b))"
    by (simp add: fun_eq_iff tracked_def)
  then show "unat (getTotalAllocated s) = sum_list (map (unat \<circ> snd) (map tracked ?bs))"
    using unat_sum_list [OF small] tot by (simp add: getTotalAllocated_def)
  have "filter block_inUse ?bs = ?bs"
    using oks by (simp add: list_all_iff block_ok_def)
  then have "checkLeaks s = of_nat (length ?bs)"
    by (simp add: checkLeaks_def leak_count)
  moreover have "length ?bs < 2 ^ 32"
    using count_le_sizes [OF oks] small by simp
  ultimately show "unat (checkLeaks s) = length (map tracked ?bs)"
    by (simp add: unat_of_nat)
qed

subsection \<open>The registry and the log\<close>

lemma erase_unique:
  assumes "distinct (map block_ptr bs)" and "it < length bs"
  shows "map tracked (vector_erase bs it) =
           filter (\<lambda>(p, sz). p \<noteq> block_ptr (bs ! it)) (map tracked bs)"
proof -
  let ?x = "block_ptr (bs ! it)"
  note split = erase_split [OF assms(2)]
  have d: "distinct (map block_ptr (take it bs @ bs ! it # drop (Suc it) bs))"
    using assms(1) split(1) by simp
  have keep: "filter (\<lambda>(p, sz). p \<noteq> ?x) (map tracked cs) = map tracked cs"
    if "?x \<notin> block_ptr ` set cs" for cs
    using that by (induction cs) (auto simp: tracked_def)
  have "?x \<notin> block_ptr ` set (take it bs)" "?x \<notin> block_ptr ` set (drop (Suc it) bs)"
    using d by auto
  then have "filter (\<lambda>(p, sz). p \<noteq> ?x) (map tracked (take it bs)) = map tracked (take it bs)"
    and "filter (\<lambda>(p, sz). p \<noteq> ?x) (map tracked (drop (Suc it) bs)) = map tracked (drop (Suc it) bs)"
    by (simp_all add: keep)
  moreover have "filter (\<lambda>(p, sz). p \<noteq> ?x) (map tracked bs) =
      filter (\<lambda>(p, sz). p \<noteq> ?x) (map tracked (take it bs)) @
      filter (\<lambda>(p, sz). p \<noteq> ?x) (map tracked (drop (Suc it) bs))"
    by (subst split(1)) (simp add: tracked_def)
  ultimately show ?thesis by (simp add: split(2))
qed

lemma freed_later_Cons:
  "freed_later p ((c, Allocated y) # log) = freed_later p log"
  "freed_later p ((Deallocate x, Deallocated ok) # log) = (p = x \<and> ok \<or> freed_later p log)"
  by (auto simp: freed_later_def)

lemma registry_follows_log:
  assumes "mm_inv s" and "heap_ok s calls" and "mm_run s calls = (log, s')"
  shows "mm_inv s' \<and>
         map tracked (m_activeBlocks s') =
           filter (\<lambda>(p, sz). \<not> freed_later p log) (map tracked (m_activeBlocks s)) @ outstanding log"
  using assms
proof (induction calls arbitrary: s log)
  case Nil
  then show ?case by (simp add: freed_later_def)
next
  case (Cons c calls)
  obtain r s1 where step: "mm_step s c = (r, s1)" by (cases "mm_step s c")
  obtain log1 where run: "mm_run s1 calls = (log1, s')" and log: "log = (c, r) # log1"
    using Cons.prems(3) step by (auto split: prod.splits)
  have heap_c: "heap_call_ok s c" and heap1: "heap_ok s1 calls"
    using Cons.prems(2) step by simp_all
  show ?case
  proof (cases c)
    case (Allocate sz src ln now heap)
    obtain x where al: "MemoryManager_allocate s sz src ln now heap = (x, s1)"
      and r: "r = Allocated x"
      using step Allocate by (auto split: prod.splits)
    from allocate_preserves [OF Cons.prems(1) heap_c [unfolded Allocate] al]
    have inv1: "mm_inv s1"
      and blocks: "if x = 0 then m_activeBlocks s1 = m_activeBlocks s
                   else \<exists>nb. m_activeBlocks s1 = m_activeBlocks s @ [nb] \<and> tracked nb = (x, sz)"
      by simp_all
    from Cons.IH [OF inv1 heap1 run]
    have inv': "mm_inv s'"
      and ih: "map tracked (m_activeBlocks s') =
                 filter (\<lambda>(p, sz). \<not> freed_later p log1) (map tracked (m_activeBlocks s1)) @
                 outstanding log1"
      by simp_all
    show ?thesis
    proof (cases "x = 0")
      case True
      with blocks ih inv' show ?thesis
        unfolding log Allocate r by (simp add: freed_later_Cons)
    next
      case False
      with blocks obtain nb where "m_activeBlocks s1 = m_activeBlocks s @ [nb]" "tracked nb = (x, sz)"
        by auto
      with ih inv' False show ?thesis
        unfolding log Allocate r by (simp add: freed_later_Cons)
    qed
  next
    case (Deallocate x)
    obtain ok where de: "MemoryManager_deallocate s x = (ok, s1)" and r: "r = Deallocated ok"
      using step Deallocate by (auto split: prod.splits)
    from deallocate_preserves [OF Cons.prems(1) de]
    have inv1: "mm_inv s1"
      and blocks: "if ok
          then \<exists>it. it < length (m_activeBlocks s) \<and> block_ptr (m_activeBlocks s ! it) = x \<and>
                    m_activeBlocks s1 = vector_erase (m_activeBlocks s) it
          else s1 = s"
      by simp_all
    from Cons.IH [OF inv1 heap1 run]
    have inv': "mm_inv s'"
      and ih: "map tracked (m_activeBlocks s') =
                 filter (\<lambda>(p, sz). \<not> freed_later p log1) (map tracked (m_activeBlocks s1)) @
                 outstanding log1"
      by simp_all
    have out: "outstanding ((Deallocate x, Deallocated ok) # log1) = outstanding log1"
      by simp
    show ?thesis
    proof (cases ok)
      case False
      with blocks ih inv' out show ?thesis
        unfolding log Deallocate r by (simp add: freed_later_Cons)
    next
      case True
      with blocks obtain it where it: "it < length (m_activeBlocks s)"
        "block_ptr (m_activeBlocks s ! it) = x"
        "m_activeBlocks s1 = vector_erase (m_activeBlocks s) it"
        by auto
      have d: "distinct (map block_ptr (m_activeBlocks s))"
        using Cons.prems(1) by (simp add: mm_inv_def distinct_pointers)
      have fl: "freed_later p ((Deallocate x, Deallocated ok) # log1) = (p = x \<or> freed_later p log1)"
        for p
        using True by (simp add: freed_later_Cons)
      have "map tracked (m_activeBlocks s1) =
              filter (\<lambda>(p, sz). p \<noteq> x) (map tracked (m_activeBlocks s))"
        using erase_unique [OF d it(1)] it(2,3) by simp
      then have "filter (\<lambda>(p, sz). \<not> freed_later p log1) (map tracked (m_activeBlocks s1)) =
                 filter (\<lambda>(p, sz). \<not> freed_later p ((Deallocate x, Deallocated ok) # log1))
                   (map tracked (m_activeBlocks s))"
        by (simp add: fl case_prod_unfold conj_commute)
      with ih inv' out show ?thesis
        unfolding log Deallocate r by simp
    qed
  qed
qed

subsection \<open>After initialisation\<close>

lemma pool_new_wf:
  assumes "h = 0 \<or> unat h + unat blockSize * unat blockCount \<le> 2 ^ 32" and "blockSize \<noteq> 0"
  shows "pool_wf (MemoryPool_new blockSize blockCount h)"
  using assms by (auto simp: pool_wf_def MemoryPool_new_def pool_bytes_def)

lemma pool_new_apart:
  assumes "h = 0 \<or> h' = 0 \<or>
           apart (unat h) (unat blockSize * unat blockCount) (unat h') (unat blockSize' * unat blockCount')"
  shows "pools_apart (MemoryPool_new blockSize blockCount h) (MemoryPool_new blockSize' blockCount' h')"
proof (cases "h = 0 \<or> h' = 0")
  case True
  then show ?thesis
    by (auto simp: pools_apart_def MemoryPool_new_def pool_bytes_def apart_def)
next
  case False
  with assms show ?thesis
    by (simp add: pools_apart_def MemoryPool_new_def pool_bytes_def)
qed

lemma arenas_ok_pair:
  "arenas_ok ((h, n) # rest) \<Longrightarrow> (h', n') \<in> set rest \<Longrightarrow> h = 0 \<or> h' = 0 \<or> apart (unat h) n (unat h') n'"
  by (auto simp: list_all_iff)

lemma arenas_ok_bound: "arenas_ok ((h, n) # rest) \<Longrightarrow> h = 0 \<or> unat h + n \<le> 2 ^ 32"
  by auto

lemma arenas_ok_rest: "arenas_ok ((h, n) # rest) \<Longrightarrow> arenas_ok rest"
  by simp

lemma initialize_inv:
  assumes "init_heap_ok h0 h1 h2 h3"
  shows "mm_inv (snd (MemoryManager_initialize MemoryManager_new h0 h1 h2 h3))"
    and "m_activeBlocks (snd (MemoryManager_initialize MemoryManager_new h0 h1 h2 h3)) = []"
proof -
  let ?p0 = "MemoryPool_new 16 64 h0" and ?p1 = "MemoryPool_new 64 32 h1"
  let ?p2 = "MemoryPool_new 256 16 h2" and ?p3 = "MemoryPool_new 1024 8 h3"
  have s: "snd (MemoryManager_initialize MemoryManager_new h0 h1 h2 h3) =
             MemoryManager_new\<lparr>m_pools := [?p0, ?p1, ?p2, ?p3], mm_initialized := True\<rparr>"
    by (simp add: MemoryManager_initialize_def MemoryManager_new_def)
  have a0: "arenas_ok [(h0, 1024), (h1, 2048), (h2, 4096), (h3, 8192)]"
    using assms unfolding init_heap_ok_def by simp
  note a1 = arenas_ok_rest [OF a0]
  note a2 = arenas_ok_rest [OF a1]
  note a3 = arenas_ok_rest [OF a2]
  have wf: "pool_wf ?p0" "pool_wf ?p1" "pool_wf ?p2" "pool_wf ?p3"
    using arenas_ok_bound [OF a0] arenas_ok_bound [OF a1] arenas_ok_bound [OF a2]
      arenas_ok_bound [OF a3]
    by (simp_all add: pool_new_wf)
  have ap: "pools_apart ?p0 ?p1" "pools_apart ?p0 ?p2" "pools_apart ?p0 ?p3"
    "pools_apart ?p1 ?p2" "pools_apart ?p1 ?p3" "pools_apart ?p2 ?p3"
    using arenas_ok_pair [OF a0, of h1 2048] arenas_ok_pair [OF a0, of h2 4096]
      arenas_ok_pair [OF a0, of h3 8192] arenas_ok_pair [OF a1, of h2 4096]
      arenas_ok_pair [OF a1, of h3 8192] arenas_ok_pair [OF a2, of h3 8192]
    by (simp_all add: pool_new_apart)
  show "mm_inv (snd (MemoryManager_initialize MemoryManager_new h0 h1 h2 h3))"
    unfolding s using wf ap by (simp add: mm_inv_def MemoryManager_new_def)
  show "m_activeBlocks (snd (MemoryManager_initialize MemoryManager_new h0 h1 h2 h3)) = []"
    unfolding s by (simp add: MemoryManager_new_def)
qed

subsection \<open>The tracked total and the leak count\<close>

text \<open>C1: the manager is initialised and then receives any sequence of \<open>allocate\<close> and
  \<open>deallocate\<close> calls; the heap keeps its contract (what it hands out lies in the address
  space and overlaps nothing that is still in use). Then the tracked total is the sum of
  the sizes of the successful \<open>allocate\<close> calls whose pointer has not been successfully
  deallocated since, and \<open>checkLeaks\<close> returns the number of those calls.\<close>

theorem tracked_total_and_leaks:
  assumes "init_heap_ok h0 h1 h2 h3"
    and "heap_ok (snd (MemoryManager_initialize MemoryManager_new h0 h1 h2 h3)) calls"
    and "mm_run (snd (MemoryManager_initialize MemoryManager_new h0 h1 h2 h3)) calls = (log, s)"
  shows "unat (getTotalAllocated s) = sum_list (map (unat \<circ> snd) (outstanding log)) \<and>
         unat (checkLeaks s) = length (outstanding log)"
proof -
  let ?s0 = "snd (MemoryManager_initialize MemoryManager_new h0 h1 h2 h3)"
  note init = initialize_inv [OF assms(1)]
  from registry_follows_log [OF init(1) assms(2,3)]
  have inv: "mm_inv s" and reg: "map tracked (m_activeBlocks s) = outstanding log"
    by (simp_all add: init(2))
  from mm_inv_counts [OF inv] reg show ?thesis by simp
qed

lemma replicate_numeral: "replicate (numeral k) x = x # replicate (pred_numeral k) x"
  by (simp add: numeral_eq_Suc)

lemmas mm_eval = replicate_numeral
  mm_fresh_def demo_calls_def MemoryManager_initialize_def MemoryManager_new_def
  MemoryPool_new_def MemoryManager_allocate_def MemoryManager_deallocate_def
  allocate_from_pools_def MemoryPool_allocate_def MemoryPool_deallocate_def findBlock_def
  vector_erase_def heap_answer_ok_def apart_def pool_bytes_def freed_later_def Let_def

lemma demo_run:
  "fst (mm_run mm_fresh demo_calls) =
     [(Allocate 10 None 0 5 0, Allocated 0x1000),
      (Allocate 2000 None 0 6 0x9000, Allocated 0x9000),
      (Deallocate 0x1000, Deallocated True),
      (Deallocate 0x1000, Deallocated False),
      (Allocate 100 None 0 7 0, Allocated 0x3000)]"
  by (simp add: mm_eval)

lemma demo_heap_ok: "heap_ok mm_fresh demo_calls"
  by (simp add: mm_eval)

text \<open>Five calls on a fresh manager: 10 bytes from the first pool, 2000 bytes from the heap,
  the first block freed, freed again (refused), 100 bytes from the third pool. Two
  allocations are outstanding, 2100 bytes in all.\<close>

theorem tracked_total_and_leaks_witness:
  "init_heap_ok 0x1000 0x2000 0x3000 0x5000 \<and>
   heap_ok mm_fresh demo_calls \<and>
   outstanding (fst (mm_run mm_fresh demo_calls)) = [(0x9000, 2000), (0x3000, 100)] \<and>
   unat (getTotalAllocated (snd (mm_run mm_fresh demo_calls))) = 2100 \<and>
   unat (checkLeaks (snd (mm_run mm_fresh demo_calls))) = 2"
proof -
  have h: "init_heap_ok 0x1000 0x2000 0x3000 0x5000"
    by (simp add: init_heap_ok_def apart_def)
  have k: "heap_ok (snd (MemoryManager_initialize MemoryManager_new 0x1000 0x2000 0x3000 0x5000))
             demo_calls"
    using demo_heap_ok by (simp add: mm_fresh_def)
  have r: "mm_run (snd (MemoryManager_initialize MemoryManager_new 0x1000 0x2000 0x3000 0x5000))
             demo_calls = (fst (mm_run mm_fresh demo_calls), snd (mm_run mm_fresh demo_calls))"
    by (simp add: mm_fresh_def)
  have out: "outstanding (fst (mm_run mm_fresh demo_calls)) = [(0x9000, 2000), (0x3000, 100)]"
    by (simp add: demo_run freed_later_def)
  from tracked_total_and_leaks [OF h k r] h demo_heap_ok out show ?thesis
    by simp
qed

section \<open>\<^verbatim>\<open>std::sort\<close> of libstdc++ meets the contract\<close>

subsection \<open>Every step permutes the array\<close>

lemma length_iter_swap: "length (iter_swap xs a b) = length xs"
  by (simp add: iter_swap_def)

lemma mset_iter_swap:
  "a < length xs \<Longrightarrow> b < length xs \<Longrightarrow> mset (iter_swap xs a b) = mset xs"
  by (simp add: iter_swap_def mset_swap)

lemma move_median_to_first_perm:
  assumes "result < length xs" "a < length xs" "b < length xs" "c < length xs"
  shows "length (move_median_to_first cmp xs result a b c) = length xs \<and>
         mset (move_median_to_first cmp xs result a b c) = mset xs"
  using assms by (simp add: move_median_to_first_def length_iter_swap mset_iter_swap)

lemma partition_advance_bounds:
  "first \<le> partition_advance cmp xs first pivot \<and>
   (first \<le> length xs \<longrightarrow> partition_advance cmp xs first pivot \<le> length xs)"
proof (induction cmp xs first pivot rule: partition_advance.induct)
  case (1 cmp xs first pivot)
  then show ?case
    by (subst (1 2) partition_advance.simps) (auto simp: Suc_leD)
qed

lemma partition_retreat_le: "partition_retreat cmp xs n pivot \<le> n"
proof (induction cmp xs n pivot rule: partition_retreat.induct)
  case (1 cmp xs n pivot)
  then show ?case
    by (subst partition_retreat.simps) (auto simp: le_diff_conv)
qed

lemma unguarded_partition_perm:
  "first \<le> length xs \<Longrightarrow> last_i \<le> length xs \<Longrightarrow>
   fst (unguarded_partition cmp xs first last_i pivot) \<le> length xs \<and>
   length (snd (unguarded_partition cmp xs first last_i pivot)) = length xs \<and>
   mset (snd (unguarded_partition cmp xs first last_i pivot)) = mset xs"
proof (induction cmp xs first last_i pivot rule: unguarded_partition.induct)
  case (1 cmp xs first last_i pivot)
  define first1 where "first1 = partition_advance cmp xs first pivot"
  define last1 where "last1 = partition_retreat cmp xs (last_i - 1) pivot"
  note unfold = unguarded_partition.simps [of cmp xs first last_i pivot, unfolded Let_def,
      folded first1_def last1_def]
  have f: "first1 \<le> length xs"
    using partition_advance_bounds [of first cmp xs pivot] "1.prems" by (simp add: first1_def)
  have l: "last1 \<le> last_i - 1"
    by (simp add: last1_def partition_retreat_le)
  show ?case
  proof (cases "first1 < last1")
    case True
    with l "1.prems" have b: "first1 < length xs" "last1 < length xs" "first1 + 1 \<le> length xs"
      by simp_all
    have "fst (unguarded_partition cmp (iter_swap xs first1 last1) (first1 + 1) last1 pivot)
            \<le> length (iter_swap xs first1 last1) \<and>
          length (snd (unguarded_partition cmp (iter_swap xs first1 last1) (first1 + 1) last1 pivot))
            = length (iter_swap xs first1 last1) \<and>
          mset (snd (unguarded_partition cmp (iter_swap xs first1 last1) (first1 + 1) last1 pivot))
            = mset (iter_swap xs first1 last1)"
      using True b
      by (intro "1.IH" [OF first1_def last1_def]) (simp_all add: length_iter_swap)
    then show ?thesis
      unfolding unfold using True b by (simp add: length_iter_swap mset_iter_swap)
  next
    case False
    then show ?thesis
      unfolding unfold using f by simp
  qed
qed

lemma unguarded_partition_pivot_perm:
  assumes "last_i \<le> length xs" and "last_i - first > S_threshold"
  shows "fst (unguarded_partition_pivot cmp xs first last_i) \<le> length xs \<and>
         length (snd (unguarded_partition_pivot cmp xs first last_i)) = length xs \<and>
         mset (snd (unguarded_partition_pivot cmp xs first last_i)) = mset xs"
proof -
  let ?mid = "first + (last_i - first) div 2"
  let ?ys = "move_median_to_first cmp xs first (first + 1) ?mid (last_i - 1)"
  from assms have "first < length xs" "first + 1 < length xs" "?mid < length xs"
    "last_i - 1 < length xs"
    by (simp_all add: S_threshold_def)
  then have ys: "length ?ys = length xs" "mset ?ys = mset xs"
    using move_median_to_first_perm [of first xs "first + 1" ?mid "last_i - 1" cmp] by simp_all
  have "first + 1 \<le> length ?ys" "last_i \<le> length ?ys"
    using assms ys by (simp_all add: S_threshold_def)
  from unguarded_partition_perm [OF this, of cmp first] ys show ?thesis
    by (simp add: unguarded_partition_pivot_def Let_def)
qed

lemma mset_update_move:
  assumes "i < length xs" "j < length xs" "i \<noteq> j"
  shows "mset (xs[i := xs ! j, j := v]) = mset (xs[i := v])"
  using assms by (simp add: mset_update nth_list_update)

lemma push_heap_perm:
  "first + holeIndex < length xs \<Longrightarrow>
   length (push_heap cmp xs first holeIndex topIndex val) = length xs \<and>
   mset (push_heap cmp xs first holeIndex topIndex val) = mset (xs[first + holeIndex := val])"
proof (induction cmp xs first holeIndex topIndex val rule: push_heap.induct)
  case (1 cmp xs first holeIndex topIndex val)
  define parent where "parent = (holeIndex - 1) div 2"
  note unfold = push_heap.simps [of cmp xs first holeIndex topIndex val, unfolded Let_def,
      folded parent_def]
  show ?case
  proof (cases "holeIndex > topIndex \<and> cmp (xs ! (first + parent)) val")
    case True
    then have p: "parent < holeIndex" by (auto simp: parent_def)
    let ?ys = "xs[first + holeIndex := xs ! (first + parent)]"
    have "length (push_heap cmp ?ys first parent topIndex val) = length ?ys \<and>
          mset (push_heap cmp ?ys first parent topIndex val) = mset (?ys[first + parent := val])"
      using True p "1.prems" by (intro "1.IH" [OF parent_def]) simp_all
    moreover have "mset (?ys[first + parent := val]) = mset (xs[first + holeIndex := val])"
      using p "1.prems" by (intro mset_update_move) simp_all
    ultimately show ?thesis
      unfolding unfold using True by simp
  next
    case False
    then show ?thesis
      unfolding unfold by auto
  qed
qed

lemma adjust_heap_loop_perm:
  assumes "adjust_heap_loop cmp xs first len hole child = (xs1, hole1, child1)"
    and "first + len \<le> length xs" and "hole < len" and "hole \<le> child"
  shows "length xs1 = length xs \<and> hole1 \<le> child1 \<and> hole1 < len \<and>
         mset (xs1[first + hole1 := v]) = mset (xs[first + hole := v])"
  using assms
proof (induction cmp xs first len hole child arbitrary: xs1 hole1 child1
    rule: adjust_heap_loop.induct)
  case (1 cmp xs first len hole secondChild)
  define child where "child = 2 * (secondChild + 1)"
  define child' where
    "child' = (if cmp (xs ! (first + child)) (xs ! (first + (child - 1))) then child - 1 else child)"
  note unfold = adjust_heap_loop.simps [of cmp xs first len hole secondChild, unfolded Let_def,
      folded child_def, folded child'_def]
  show ?case
  proof (cases "secondChild < (len - 1) div 2")
    case True
    let ?ys = "xs[first + hole := xs ! (first + child')]"
    have c: "child' < len" "hole < child'"
      using True "1.prems"(4) by (auto simp: child'_def child_def)
    have r: "adjust_heap_loop cmp ?ys first len child' child' = (xs1, hole1, child1)"
      using "1.prems"(1) True unfolding unfold by simp
    have "length xs1 = length ?ys \<and> hole1 \<le> child1 \<and> hole1 < len \<and>
          mset (xs1[first + hole1 := v]) = mset (?ys[first + child' := v])"
      using True c "1.prems"(2)
      by (intro "1.IH" [OF True child_def child'_def r]) simp_all
    moreover have "mset (?ys[first + child' := v]) = mset (xs[first + hole := v])"
      using c "1.prems"(2,3) by (intro mset_update_move) simp_all
    ultimately show ?thesis by simp
  next
    case False
    then show ?thesis
      using "1.prems" unfolding unfold by auto
  qed
qed

lemma adjust_heap_perm:
  assumes "first + len \<le> length xs" and "hole < len"
  shows "length (adjust_heap cmp xs first hole len v) = length xs \<and>
         mset (adjust_heap cmp xs first hole len v) = mset (xs[first + hole := v])"
proof -
  obtain xs1 hole1 child1 where
    r: "adjust_heap_loop cmp xs first len hole hole = (xs1, hole1, child1)"
    by (metis prod_cases3)
  from adjust_heap_loop_perm [OF r assms, of v]
  have l: "length xs1 = length xs" "hole1 \<le> child1" "hole1 < len"
    "mset (xs1[first + hole1 := v]) = mset (xs[first + hole := v])"
    by simp_all
  show ?thesis
  proof (cases "len mod 2 = 0 \<and> 2 \<le> len \<and> child1 = (len - 2) div 2")
    case True
    define k where "k = 2 * (child1 + 1) - 1"
    have k: "k < len" "hole1 < k"
      using True l(2) by (auto simp: k_def)
    let ?ys = "xs1[first + hole1 := xs1 ! (first + k)]"
    have a: "adjust_heap cmp xs first hole len v = push_heap cmp ?ys first k hole v"
      using True by (simp add: adjust_heap_def r Let_def k_def)
    have p: "length (push_heap cmp ?ys first k hole v) = length ?ys \<and>
             mset (push_heap cmp ?ys first k hole v) = mset (?ys[first + k := v])"
      using k l(1) assms by (intro push_heap_perm) simp
    have "mset (?ys[first + k := v]) = mset (xs1[first + hole1 := v])"
      using k l(1,3) assms by (intro mset_update_move) simp_all
    with p l(1,4) show ?thesis
      unfolding a by simp
  next
    case False
    have a: "adjust_heap cmp xs first hole len v = push_heap cmp xs1 first hole1 hole v"
      using False by (auto simp: adjust_heap_def r Let_def)
    have "length (push_heap cmp xs1 first hole1 hole v) = length xs1 \<and>
          mset (push_heap cmp xs1 first hole1 hole v) = mset (xs1[first + hole1 := v])"
      using l(1,3) assms by (intro push_heap_perm) simp
    with l(1,4) show ?thesis
      unfolding a by simp
  qed
qed

lemma pop_heap_perm:
  assumes "first < last_i" and "last_i \<le> length xs" and "result < length xs"
    and "last_i \<le> result"
  shows "length (pop_heap cmp xs first last_i result) = length xs \<and>
         mset (pop_heap cmp xs first last_i result) = mset xs"
proof -
  let ?ys = "xs[result := xs ! first]"
  have "length (adjust_heap cmp ?ys first 0 (last_i - first) (xs ! result)) = length ?ys \<and>
        mset (adjust_heap cmp ?ys first 0 (last_i - first) (xs ! result))
          = mset (?ys[first + 0 := xs ! result])"
    using assms by (intro adjust_heap_perm) simp_all
  moreover have "mset (?ys[first := xs ! result]) = mset xs"
    using assms by (simp add: mset_swap)
  ultimately show ?thesis by (simp add: pop_heap_def)
qed

lemma make_heap_loop_perm:
  "first + len \<le> length xs \<Longrightarrow> parent < len \<Longrightarrow>
   length (make_heap_loop cmp xs first len parent) = length xs \<and>
   mset (make_heap_loop cmp xs first len parent) = mset xs"
proof (induction cmp xs first len parent rule: make_heap_loop.induct)
  case (1 cmp xs first len parent)
  define xs1 where "xs1 = adjust_heap cmp xs first parent len (xs ! (first + parent))"
  note unfold = make_heap_loop.simps [of cmp xs first len parent, unfolded Let_def,
      folded xs1_def]
  have a: "length xs1 = length xs" "mset xs1 = mset xs"
    using adjust_heap_perm [OF "1.prems", of cmp "xs ! (first + parent)"]
    by (simp_all add: xs1_def)
  show ?case
  proof (cases "parent = 0")
    case True
    then show ?thesis
      unfolding unfold using a by simp
  next
    case False
    have "length (make_heap_loop cmp xs1 first len (parent - 1)) = length xs1 \<and>
          mset (make_heap_loop cmp xs1 first len (parent - 1)) = mset xs1"
      using False "1.prems" a by (intro "1.IH" [OF xs1_def]) simp_all
    then show ?thesis
      unfolding unfold using False a by simp
  qed
qed

lemma make_heap_perm:
  assumes "last_i \<le> length xs"
  shows "length (make_heap cmp xs first last_i) = length xs \<and>
         mset (make_heap cmp xs first last_i) = mset xs"
proof (cases "last_i - first < 2")
  case True
  then show ?thesis by (simp add: make_heap_def)
next
  case False
  then have "first + (last_i - first) \<le> length xs" "(last_i - first - 2) div 2 < last_i - first"
    using assms by simp_all
  from make_heap_loop_perm [OF this] False show ?thesis
    by (simp add: make_heap_def)
qed

lemma sort_heap_perm:
  "last_i \<le> length xs \<Longrightarrow>
   length (sort_heap cmp xs first last_i) = length xs \<and>
   mset (sort_heap cmp xs first last_i) = mset xs"
proof (induction cmp xs first last_i rule: sort_heap.induct)
  case (1 cmp xs first last_i)
  show ?case
  proof (cases "last_i - first > 1")
    case True
    let ?ys = "pop_heap cmp xs first (last_i - 1) (last_i - 1)"
    have p: "length ?ys = length xs \<and> mset ?ys = mset xs"
      using True "1.prems" by (intro pop_heap_perm) simp_all
    then have "length (sort_heap cmp ?ys first (last_i - 1)) = length ?ys \<and>
               mset (sort_heap cmp ?ys first (last_i - 1)) = mset ?ys"
      using True "1.prems" by (intro "1.IH") simp_all
    with p True show ?thesis
      by (subst (1 2) sort_heap.simps) simp
  next
    case False
    then show ?thesis by (subst (1 2) sort_heap.simps) simp
  qed
qed

lemma heap_select_loop_perm:
  "first < middle \<Longrightarrow> middle \<le> i \<Longrightarrow> last_i \<le> length xs \<Longrightarrow>
   length (heap_select_loop cmp xs first middle i last_i) = length xs \<and>
   mset (heap_select_loop cmp xs first middle i last_i) = mset xs"
proof (induction cmp xs first middle i last_i rule: heap_select_loop.induct)
  case (1 cmp xs first middle i last_i)
  show ?case
  proof (cases "i < last_i")
    case True
    define ys where
      "ys = (if cmp (xs ! i) (xs ! first) then pop_heap cmp xs first middle i else xs)"
    have p: "length ys = length xs \<and> mset ys = mset xs"
      using True "1.prems" pop_heap_perm [of first middle xs i cmp] by (simp add: ys_def)
    then have "length (heap_select_loop cmp ys first middle (i + 1) last_i) = length ys \<and>
               mset (heap_select_loop cmp ys first middle (i + 1) last_i) = mset ys"
      unfolding ys_def using True "1.prems" by (intro "1.IH") simp_all
    with p True show ?thesis
      by (subst (1 2) heap_select_loop.simps) (simp add: ys_def [symmetric])
  next
    case False
    then show ?thesis by (subst (1 2) heap_select_loop.simps) simp
  qed
qed

lemma partial_sort_perm:
  assumes "first < middle" and "middle \<le> last_i" and "last_i \<le> length xs"
  shows "length (partial_sort cmp xs first middle last_i) = length xs \<and>
         mset (partial_sort cmp xs first middle last_i) = mset xs"
proof -
  let ?hs = "make_heap cmp xs first middle"
  have m: "length ?hs = length xs \<and> mset ?hs = mset xs"
    using assms by (intro make_heap_perm) simp
  then have h: "length (heap_select cmp xs first middle last_i) = length xs \<and>
                mset (heap_select cmp xs first middle last_i) = mset xs"
    using heap_select_loop_perm [of first middle middle last_i ?hs cmp] assms
    by (simp add: heap_select_def)
  then show ?thesis
    using sort_heap_perm [of middle "heap_select cmp xs first middle last_i" cmp first] assms
    by (simp add: partial_sort_def)
qed

lemma introsort_loop_perm:
  "last_i \<le> length xs \<Longrightarrow>
   length (introsort_loop cmp xs first last_i depth_limit) = length xs \<and>
   mset (introsort_loop cmp xs first last_i depth_limit) = mset xs"
proof (induction depth_limit arbitrary: xs first last_i)
  case 0
  then show ?case
    using partial_sort_perm [of first last_i last_i xs cmp]
    by (auto simp: introsort_loop.simps S_threshold_def)
next
  case (Suc depth_limit)
  show ?case
  proof (cases "last_i - first > S_threshold")
    case True
    obtain cut_i xs1 where p: "unguarded_partition_pivot cmp xs first last_i = (cut_i, xs1)"
      by (cases "unguarded_partition_pivot cmp xs first last_i")
    from unguarded_partition_pivot_perm [OF Suc.prems True, of cmp]
    have c: "cut_i \<le> length xs" "length xs1 = length xs" "mset xs1 = mset xs"
      by (simp_all add: p)
    let ?xs2 = "introsort_loop cmp xs1 cut_i last_i depth_limit"
    have x2: "length ?xs2 = length xs1 \<and> mset ?xs2 = mset xs1"
      using Suc.prems c by (intro Suc.IH) simp
    then have "length (introsort_loop cmp ?xs2 first cut_i depth_limit) = length ?xs2 \<and>
               mset (introsort_loop cmp ?xs2 first cut_i depth_limit) = mset ?xs2"
      using c by (intro Suc.IH) simp
    with x2 c True show ?thesis
      by (simp add: introsort_loop.simps p)
  next
    case False
    then show ?thesis by (simp add: introsort_loop.simps)
  qed
qed

subsection \<open>The final insertion sort puts the array in order\<close>

lemma linear_insert_loop_result:
  "last_i < length xs \<Longrightarrow>
   \<exists>k\<le>last_i.
     linear_insert_loop cmp val xs last_i =
       take k xs @ val # drop k (take last_i xs) @ drop (Suc last_i) xs \<and>
     (\<forall>j. k \<le> j \<and> j < last_i \<longrightarrow> cmp val (xs ! j)) \<and>
     (k = 0 \<or> \<not> cmp val (xs ! (k - 1)))"
proof (induction cmp val xs last_i rule: linear_insert_loop.induct)
  case (1 cmp val xs last_i)
  note unfold = linear_insert_loop.simps [of cmp val xs last_i]
  show ?case
  proof (cases "0 < last_i \<and> cmp val (xs ! (last_i - 1))")
    case True
    define n where "n = last_i - 1"
    have n: "last_i = Suc n" using True by (simp add: n_def)
    have n1: "last_i - 1 = n" by (simp add: n_def)
    have T: "0 < last_i" "cmp val (xs ! n)" using True by (simp_all add: n_def)
    let ?ys = "xs[last_i := xs ! n]"
    have "\<exists>k\<le>n. linear_insert_loop cmp val ?ys n =
              take k ?ys @ val # drop k (take n ?ys) @ drop (Suc n) ?ys \<and>
            (\<forall>j. k \<le> j \<and> j < n \<longrightarrow> cmp val (?ys ! j)) \<and>
            (k = 0 \<or> \<not> cmp val (?ys ! (k - 1)))"
      using "1.IH" [OF True] "1.prems" by (simp add: n_def)
    then obtain k where k: "k \<le> n"
      and r: "linear_insert_loop cmp val ?ys n =
                take k ?ys @ val # drop k (take n ?ys) @ drop (Suc n) ?ys"
      and c: "\<forall>j. k \<le> j \<and> j < n \<longrightarrow> cmp val (?ys ! j)"
      and s: "k = 0 \<or> \<not> cmp val (?ys ! (k - 1))"
      by blast
    have t: "take k ?ys = take k xs" "take n ?ys = take n xs"
      using k by (simp_all add: n)
    have d: "drop (Suc n) ?ys = xs ! n # drop (Suc last_i) xs"
      using "1.prems" by (simp add: n drop_update_swap flip: Cons_nth_drop_Suc)
    have "take last_i xs = take n xs @ [xs ! n]"
      using "1.prems" by (simp add: n take_Suc_conv_app_nth)
    then have e: "drop k (take last_i xs) = drop k (take n xs) @ [xs ! n]"
      using k "1.prems" by (simp add: n)
    have "linear_insert_loop cmp val xs last_i =
            take k xs @ val # drop k (take last_i xs) @ drop (Suc last_i) xs"
      unfolding unfold n1 using T r by (simp add: t d e)
    moreover have "cmp val (xs ! j)" if "k \<le> j" "j < last_i" for j
    proof (cases "j = n")
      case True
      with \<open>0 < last_i \<and> cmp val (xs ! (last_i - 1))\<close> show ?thesis by (simp add: n_def)
    next
      case False
      with that have "j < n" by (simp add: n)
      with c that have "cmp val (?ys ! j)" by blast
      then show ?thesis using \<open>j < n\<close> by (simp add: n)
    qed
    moreover have "k = 0 \<or> \<not> cmp val (xs ! (k - 1))"
      using s k by (auto simp: n)
    moreover have "k \<le> last_i" using k by (simp add: n)
    ultimately show ?thesis by blast
  next
    case False
    have "linear_insert_loop cmp val xs last_i = take last_i xs @ val # drop (Suc last_i) xs"
      unfolding unfold using False "1.prems" by (auto simp: upd_conv_take_nth_drop)
    with False show ?thesis
      by (intro exI [of _ last_i]) auto
  qed
qed

lemma linear_insert_loop_sorted:
  assumes swo: "strict_weak_order cmp"
    and len: "last_i < length xs"
    and srt: "sorted_wrt (\<lambda>a b. \<not> cmp b a) (take last_i xs)"
  shows "sorted_wrt (\<lambda>a b. \<not> cmp b a) (take (Suc last_i) (linear_insert_loop cmp val xs last_i)) \<and>
         drop (Suc last_i) (linear_insert_loop cmp val xs last_i) = drop (Suc last_i) xs \<and>
         length (linear_insert_loop cmp val xs last_i) = length xs \<and>
         mset (linear_insert_loop cmp val xs last_i) = mset (xs[last_i := val])"
proof -
  from swo have asym: "\<And>a b. cmp a b \<Longrightarrow> \<not> cmp b a"
    and ntrans: "\<And>a b c. \<not> cmp a b \<Longrightarrow> \<not> cmp b c \<Longrightarrow> \<not> cmp a c"
    unfolding strict_weak_order_def by blast+
  from linear_insert_loop_result [OF len, of cmp val]
  obtain k where k: "k \<le> last_i"
    and r: "linear_insert_loop cmp val xs last_i =
              take k xs @ val # drop k (take last_i xs) @ drop (Suc last_i) xs"
    and c: "\<forall>j. k \<le> j \<and> j < last_i \<longrightarrow> cmp val (xs ! j)"
    and s: "k = 0 \<or> \<not> cmp val (xs ! (k - 1))"
    by blast
  let ?R = "\<lambda>a b. \<not> cmp b a"
  let ?A = "take k xs" and ?B = "drop k (take last_i xs)"
  have AB: "take last_i xs = ?A @ ?B"
    using k by (metis append_take_drop_id min.absorb1 take_take)
  have lA: "length ?A = k" and lB: "length ?B = last_i - k"
    using k len by simp_all
  have "sorted_wrt ?R (?A @ ?B)"
    using srt by (subst (asm) AB)
  then have sA: "sorted_wrt ?R ?A" and sB: "sorted_wrt ?R ?B"
    and cross: "\<forall>x\<in>set ?A. \<forall>y\<in>set ?B. ?R x y"
    unfolding sorted_wrt_append by simp_all
  have after: "?R val y" if "y \<in> set ?B" for y
  proof -
    from that obtain j where j: "j < length ?B" "y = ?B ! j"
      by (auto simp: in_set_conv_nth)
    then have "y = xs ! (k + j)" using lB k by simp
    moreover have "cmp val (xs ! (k + j))" using c j lB by simp
    ultimately show ?thesis using asym by blast
  qed
  have before: "?R x val" if "x \<in> set ?A" for x
  proof -
    from that obtain j where j: "j < k" "x = xs ! j"
      using lA by (auto simp: in_set_conv_nth)
    with s have nc: "\<not> cmp val (xs ! (k - 1))" by auto
    show ?thesis
    proof (cases "j = k - 1")
      case True
      with nc j show ?thesis by simp
    next
      case False
      with j have "j < k - 1" "k - 1 < length ?A" using lA by simp_all
      from sorted_wrt_nth_less [OF sA this]
      have "\<not> cmp (xs ! (k - 1)) x" using j by simp
      with nc show ?thesis by (rule ntrans)
    qed
  qed
  define P where "P = ?A @ val # ?B"
  have lP: "length P = Suc last_i"
    using lA lB k by (simp add: P_def)
  have r': "linear_insert_loop cmp val xs last_i = P @ drop (Suc last_i) xs"
    unfolding r P_def by simp
  have t: "take (Suc last_i) (linear_insert_loop cmp val xs last_i) = P"
    unfolding r' lP [symmetric] by simp
  have "sorted_wrt ?R P"
    unfolding P_def sorted_wrt_append using sA sB cross after before by auto
  moreover have "drop (Suc last_i) (linear_insert_loop cmp val xs last_i) = drop (Suc last_i) xs"
    unfolding r' lP [symmetric] by simp
  moreover have "length (linear_insert_loop cmp val xs last_i) = length xs"
    unfolding r' using lP len by simp
  moreover have "mset (linear_insert_loop cmp val xs last_i) = mset (xs[last_i := val])"
  proof -
    have "xs[last_i := val] = take last_i xs @ val # drop (Suc last_i) xs"
      using len by (simp add: upd_conv_take_nth_drop)
    then have "mset (xs[last_i := val]) = mset (?A @ ?B) + mset (val # drop (Suc last_i) xs)"
      using AB by simp
    then show ?thesis unfolding r' P_def by simp
  qed
  ultimately show ?thesis using t by simp
qed

lemma insertion_step:
  assumes swo: "strict_weak_order cmp"
    and len: "i < length xs"
    and srt: "sorted_wrt (\<lambda>a b. \<not> cmp b a) (take i xs)"
  shows "sorted_wrt (\<lambda>a b. \<not> cmp b a) (take (Suc i) (unguarded_linear_insert cmp xs i)) \<and>
         drop (Suc i) (unguarded_linear_insert cmp xs i) = drop (Suc i) xs \<and>
         length (unguarded_linear_insert cmp xs i) = length xs \<and>
         mset (unguarded_linear_insert cmp xs i) = mset xs"
  using linear_insert_loop_sorted [OF swo len srt, where val = "xs ! i"]
  by (simp add: unguarded_linear_insert_def)

lemma insertion_to_front:
  assumes swo: "strict_weak_order cmp"
    and len: "i < length xs" and pos: "0 < i"
    and srt: "sorted_wrt (\<lambda>a b. \<not> cmp b a) (take i xs)"
    and lt: "cmp (xs ! i) (xs ! 0)"
  shows "sorted_wrt (\<lambda>a b. \<not> cmp b a) (take (Suc i) ((move_backward xs 0 i (i + 1))[0 := xs ! i])) \<and>
         drop (Suc i) ((move_backward xs 0 i (i + 1))[0 := xs ! i]) = drop (Suc i) xs \<and>
         length ((move_backward xs 0 i (i + 1))[0 := xs ! i]) = length xs \<and>
         mset ((move_backward xs 0 i (i + 1))[0 := xs ! i]) = mset xs"
proof -
  from swo have asym: "\<And>a b. cmp a b \<Longrightarrow> \<not> cmp b a"
    and ntrans: "\<And>a b c. \<not> cmp a b \<Longrightarrow> \<not> cmp b c \<Longrightarrow> \<not> cmp a c"
    unfolding strict_weak_order_def by blast+
  have one: "take (Suc 0) xs = [xs ! 0]"
    using len by (cases xs) simp_all
  have m: "(move_backward xs 0 i (i + 1))[0 := xs ! i] = xs ! i # take i xs @ drop (Suc i) xs"
    by (simp add: move_backward_def one)
  have "\<not> cmp y (xs ! i)" if "y \<in> set (take i xs)" for y
  proof -
    from that obtain j where j: "j < i" "y = xs ! j"
      using len by (auto simp: in_set_conv_nth)
    have "\<not> cmp y (xs ! 0)"
    proof (cases "j = 0")
      case True
      then show ?thesis using j asym by blast
    next
      case False
      with j len have "0 < j" "j < length (take i xs)" by simp_all
      from sorted_wrt_nth_less [OF srt this]
      show ?thesis using j pos by simp
    qed
    moreover have "\<not> cmp (xs ! 0) (xs ! i)" using lt by (rule asym)
    ultimately show ?thesis by (rule ntrans)
  qed
  then have "sorted_wrt (\<lambda>a b. \<not> cmp b a) (xs ! i # take i xs)"
    using srt by simp
  moreover have "take (Suc i) (xs ! i # take i xs @ drop (Suc i) xs) = xs ! i # take i xs"
    using len by simp
  moreover have "drop (Suc i) (xs ! i # take i xs @ drop (Suc i) xs) = drop (Suc i) xs"
    using len by simp
  moreover have "mset (xs ! i # take i xs @ drop (Suc i) xs) = mset xs"
    using id_take_nth_drop [OF len] by (metis mset.simps(2) mset_append union_mset_add_mset_right)
  ultimately show ?thesis
    unfolding m using len by simp
qed

lemma insertion_sort_loop_sorted:
  assumes swo: "strict_weak_order cmp"
  shows "0 < i \<Longrightarrow> i \<le> last_i \<Longrightarrow> last_i \<le> length xs \<Longrightarrow>
         sorted_wrt (\<lambda>a b. \<not> cmp b a) (take i xs) \<Longrightarrow>
         sorted_wrt (\<lambda>a b. \<not> cmp b a) (take last_i (insertion_sort_loop cmp xs 0 i last_i)) \<and>
         length (insertion_sort_loop cmp xs 0 i last_i) = length xs \<and>
         mset (insertion_sort_loop cmp xs 0 i last_i) = mset xs"
proof (induction "last_i - i" arbitrary: i xs)
  case 0
  then show ?case
    by (subst (1 2 3) insertion_sort_loop.simps) simp
next
  case (Suc n)
  then have lt: "i < last_i" "i < length xs" by simp_all
  define ys where
    "ys = (if cmp (xs ! i) (xs ! 0) then (move_backward xs 0 i (i + 1))[0 := xs ! i]
           else unguarded_linear_insert cmp xs i)"
  note unfold = insertion_sort_loop.simps [of cmp xs 0 i last_i, folded ys_def]
  have y: "sorted_wrt (\<lambda>a b. \<not> cmp b a) (take (Suc i) ys) \<and> length ys = length xs \<and>
           mset ys = mset xs"
    using insertion_step [OF swo lt(2) Suc.prems(4)]
      insertion_to_front [OF swo lt(2) Suc.prems(1) Suc.prems(4)]
    by (simp add: ys_def)
  have "sorted_wrt (\<lambda>a b. \<not> cmp b a) (take last_i (insertion_sort_loop cmp ys 0 (Suc i) last_i)) \<and>
        length (insertion_sort_loop cmp ys 0 (Suc i) last_i) = length ys \<and>
        mset (insertion_sort_loop cmp ys 0 (Suc i) last_i) = mset ys"
    using Suc.hyps(2) lt Suc.prems(3) y by (intro Suc.hyps(1)) simp_all
  with y lt show ?case
    unfolding unfold by simp
qed

lemma insertion_sort_sorted:
  assumes swo: "strict_weak_order cmp"
    and len: "last_i \<le> length xs"
  shows "sorted_wrt (\<lambda>a b. \<not> cmp b a) (take last_i (insertion_sort cmp xs 0 last_i)) \<and>
         length (insertion_sort cmp xs 0 last_i) = length xs \<and>
         mset (insertion_sort cmp xs 0 last_i) = mset xs"
proof (cases "last_i = 0")
  case True
  then show ?thesis by (simp add: insertion_sort_def)
next
  case False
  have "sorted_wrt (\<lambda>a b. \<not> cmp b a) (take 1 xs)"
    by (cases xs) simp_all
  with insertion_sort_loop_sorted [OF swo, where i = 1 and last_i = last_i and xs = xs]
    False len show ?thesis
    by (simp add: insertion_sort_def)
qed

lemma unguarded_insertion_sort_sorted:
  assumes swo: "strict_weak_order cmp"
  shows "i \<le> last_i \<Longrightarrow> last_i \<le> length xs \<Longrightarrow>
         sorted_wrt (\<lambda>a b. \<not> cmp b a) (take i xs) \<Longrightarrow>
         sorted_wrt (\<lambda>a b. \<not> cmp b a) (take last_i (unguarded_insertion_sort cmp xs i last_i)) \<and>
         length (unguarded_insertion_sort cmp xs i last_i) = length xs \<and>
         mset (unguarded_insertion_sort cmp xs i last_i) = mset xs"
proof (induction "last_i - i" arbitrary: i xs)
  case 0
  then show ?case
    by (subst (1 2 3) unguarded_insertion_sort.simps) simp
next
  case (Suc n)
  then have lt: "i < last_i" "i < length xs" by simp_all
  let ?ys = "unguarded_linear_insert cmp xs i"
  note unfold = unguarded_insertion_sort.simps [of cmp xs i last_i]
  have y: "sorted_wrt (\<lambda>a b. \<not> cmp b a) (take (Suc i) ?ys) \<and> length ?ys = length xs \<and>
           mset ?ys = mset xs"
    using insertion_step [OF swo lt(2) Suc.prems(3)] by simp
  have "sorted_wrt (\<lambda>a b. \<not> cmp b a) (take last_i (unguarded_insertion_sort cmp ?ys (Suc i) last_i)) \<and>
        length (unguarded_insertion_sort cmp ?ys (Suc i) last_i) = length ?ys \<and>
        mset (unguarded_insertion_sort cmp ?ys (Suc i) last_i) = mset ?ys"
    using Suc.hyps(2) lt Suc.prems(2) y by (intro Suc.hyps(1)) simp_all
  with y lt show ?case
    unfolding unfold by simp
qed

lemma final_insertion_sort_sorted:
  assumes swo: "strict_weak_order cmp"
  shows "sorted_wrt (\<lambda>a b. \<not> cmp b a) (final_insertion_sort cmp xs 0 (length xs)) \<and>
         mset (final_insertion_sort cmp xs 0 (length xs)) = mset xs"
proof (cases "length xs > S_threshold")
  case True
  let ?ys = "insertion_sort cmp xs 0 S_threshold"
  have "S_threshold \<le> length xs"
    using True by (rule less_imp_le)
  from insertion_sort_sorted [OF swo this]
  have y: "sorted_wrt (\<lambda>a b. \<not> cmp b a) (take S_threshold ?ys) \<and> length ?ys = length xs \<and>
           mset ?ys = mset xs" .
  let ?zs = "unguarded_insertion_sort cmp ?ys S_threshold (length xs)"
  have z: "sorted_wrt (\<lambda>a b. \<not> cmp b a) (take (length xs) ?zs) \<and>
           length ?zs = length ?ys \<and> mset ?zs = mset ?ys"
    using True y by (intro unguarded_insertion_sort_sorted [OF swo]) simp_all
  then have "take (length xs) ?zs = ?zs"
    using y by simp
  with y z True show ?thesis
    by (simp add: final_insertion_sort_def)
next
  case False
  from insertion_sort_sorted [OF swo, where last_i = "length xs" and xs = xs]
  have y: "sorted_wrt (\<lambda>a b. \<not> cmp b a) (take (length xs) (insertion_sort cmp xs 0 (length xs)))"
    "length (insertion_sort cmp xs 0 (length xs)) = length xs"
    "mset (insertion_sort cmp xs 0 (length xs)) = mset xs"
    by blast+
  from y(2) have "take (length xs) (insertion_sort cmp xs 0 (length xs)) =
      insertion_sort cmp xs 0 (length xs)"
    by simp
  with y False show ?thesis
    by (simp add: final_insertion_sort_def)
qed

text \<open>\<^verbatim>\<open>std::sort\<close> of libstdc++ meets the contract of the standard for every comparison
  that is a strict weak ordering.\<close>

lemma std_sort_meets_contract:
  assumes swo: "strict_weak_order cmp"
  shows "std_sort_contract cmp (std_sort cmp)"
proof -
  have "mset (std_sort cmp xs) = mset xs \<and> sorted_wrt (\<lambda>a b. \<not> cmp b a) (std_sort cmp xs)" for xs
  proof (cases "xs = []")
    case True
    then show ?thesis by (simp add: std_sort_def)
  next
    case False
    let ?ys = "introsort_loop cmp xs 0 (length xs) (lg (length xs) * 2)"
    have y: "length ?ys = length xs \<and> mset ?ys = mset xs"
      by (intro introsort_loop_perm) simp
    with final_insertion_sort_sorted [OF swo, where xs = ?ys] False show ?thesis
      by (simp add: std_sort_def)
  qed
  then show ?thesis by (simp add: std_sort_contract_def)
qed

subsection \<open>Ranges whose elements the comparison does not distinguish\<close>

text \<open>When \<open>cmp\<close> orders no two elements of the array, the insertion sorts move nothing,
  so that an array of at most 16 such elements is left as it is: the order of equivalent
  elements can only change in the partitioning of longer arrays.\<close>

lemma unguarded_linear_insert_unordered:
  assumes "\<forall>a\<in>set xs. \<forall>b\<in>set xs. \<not> cmp a b" and "i < length xs"
  shows "unguarded_linear_insert cmp xs i = xs"
proof -
  have "\<not> cmp (xs ! i) (xs ! (i - 1))"
    using assms by (simp add: less_imp_diff_less)
  then show ?thesis
    unfolding unguarded_linear_insert_def
    by (subst linear_insert_loop.simps) simp
qed

lemma insertion_sort_loop_unordered:
  assumes "\<forall>a\<in>set xs. \<forall>b\<in>set xs. \<not> cmp a b" and "first < length xs"
  shows "last_i \<le> length xs \<Longrightarrow> insertion_sort_loop cmp xs first i last_i = xs"
proof (induction "last_i - i" arbitrary: i)
  case 0
  then show ?case by (subst insertion_sort_loop.simps) simp
next
  case (Suc n)
  then have i: "i < last_i" "i < length xs" by simp_all
  have "\<not> cmp (xs ! i) (xs ! first)"
    using assms i by simp
  moreover have "unguarded_linear_insert cmp xs i = xs"
    using assms(1) i(2) by (rule unguarded_linear_insert_unordered)
  moreover have "insertion_sort_loop cmp xs first (i + 1) last_i = xs"
    using Suc.hyps(2) Suc.prems by (intro Suc.hyps(1)) simp_all
  ultimately show ?case
    using i by (subst insertion_sort_loop.simps) simp
qed

lemma unguarded_insertion_sort_unordered:
  assumes "\<forall>a\<in>set xs. \<forall>b\<in>set xs. \<not> cmp a b"
  shows "last_i \<le> length xs \<Longrightarrow> unguarded_insertion_sort cmp xs i last_i = xs"
proof (induction "last_i - i" arbitrary: i)
  case 0
  then show ?case by (subst unguarded_insertion_sort.simps) simp
next
  case (Suc n)
  then have i: "i < last_i" "i < length xs" by simp_all
  have "unguarded_linear_insert cmp xs i = xs"
    using assms i(2) by (rule unguarded_linear_insert_unordered)
  moreover have "unguarded_insertion_sort cmp xs (i + 1) last_i = xs"
    using Suc.hyps(2) Suc.prems by (intro Suc.hyps(1)) simp_all
  ultimately show ?case
    using i by (subst unguarded_insertion_sort.simps) simp
qed

lemma final_insertion_sort_unordered:
  assumes "\<forall>a\<in>set xs. \<forall>b\<in>set xs. \<not> cmp a b"
  shows "final_insertion_sort cmp xs 0 (length xs) = xs"
proof (cases "xs = []")
  case True
  then show ?thesis
    by (simp add: final_insertion_sort_def insertion_sort_def S_threshold_def)
next
  case False
  then have l: "0 < length xs" by simp
  have a: "insertion_sort cmp xs 0 n = xs" if "n \<le> length xs" for n
    using insertion_sort_loop_unordered [OF assms l that, of 1]
    by (simp add: insertion_sort_def)
  show ?thesis
    using a [of "length xs"] a [of S_threshold]
      unguarded_insertion_sort_unordered [OF assms, of "length xs" S_threshold]
    by (simp add: final_insertion_sort_def)
qed

lemma std_sort_short_unordered:
  assumes "\<forall>a\<in>set xs. \<forall>b\<in>set xs. \<not> cmp a b" and "length xs \<le> S_threshold"
  shows "std_sort cmp xs = xs"
proof -
  have "introsort_loop cmp xs 0 (length xs) d = xs" for d
    using assms(2) by (cases d) (simp_all add: introsort_loop.simps)
  then show ?thesis
    using final_insertion_sort_unordered [OF assms(1)] by (simp add: std_sort_def)
qed

subsection \<open>Evaluation\<close>

lemma list_update_numeral: "(x # xs)[numeral k := y] = x # xs[pred_numeral k := y]"
  by (simp add: numeral_eq_Suc)

lemma introsort_loop_unfold:
  "introsort_loop cmp xs first last_i depth_limit =
     (if last_i - first > S_threshold then
        (if depth_limit = 0 then partial_sort cmp xs first last_i last_i
         else (case unguarded_partition_pivot cmp xs first last_i of
                 (cut_i, xs1) \<Rightarrow>
                   introsort_loop cmp (introsort_loop cmp xs1 cut_i last_i (depth_limit - 1))
                     first cut_i (depth_limit - 1)))
      else xs)"
  by (cases depth_limit) (simp_all add: introsort_loop.simps)

lemmas sort_eval =
  std_sort_def introsort_loop_unfold S_threshold_def unguarded_partition_pivot_def
  move_median_to_first_def iter_swap_def unguarded_partition.simps partition_advance.simps
  partition_retreat.simps final_insertion_sort_def insertion_sort_def insertion_sort_loop.simps
  unguarded_insertion_sort.simps unguarded_linear_insert_def linear_insert_loop.simps
  move_backward_def list_update_numeral Let_def

section \<open>Properties of the event system\<close>

subsection \<open>A conforming sort routine\<close>

lemma mset_insert_by: "mset (insert_by cmp x ys) = add_mset x (mset ys)"
  by (induction ys) auto

lemma set_insert_by: "set (insert_by cmp x ys) = insert x (set ys)"
  by (induction ys) auto

lemma sorted_insert_by:
  assumes asym: "\<And>a b. cmp a b \<Longrightarrow> \<not> cmp b a"
    and ntrans: "\<And>a b c. \<not> cmp a b \<Longrightarrow> \<not> cmp b c \<Longrightarrow> \<not> cmp a c"
  shows "sorted_wrt (\<lambda>a b. \<not> cmp b a) ys \<Longrightarrow> sorted_wrt (\<lambda>a b. \<not> cmp b a) (insert_by cmp x ys)"
proof (induction ys)
  case Nil
  then show ?case by simp
next
  case (Cons y ys)
  show ?case
  proof (cases "cmp y x")
    case True
    then have "\<not> cmp x y" by (rule asym)
    with True Cons show ?thesis by (auto simp: set_insert_by)
  next
    case False
    have "\<not> cmp z x" if "z \<in> set ys" for z
    proof -
      from Cons.prems that have "\<not> cmp z y" by simp
      then show ?thesis using False by (rule ntrans)
    qed
    with False Cons.prems show ?thesis by auto
  qed
qed

lemma foldr_insert_by_contract:
  assumes asym: "\<And>a b. cmp a b \<Longrightarrow> \<not> cmp b a"
    and ntrans: "\<And>a b c. \<not> cmp a b \<Longrightarrow> \<not> cmp b c \<Longrightarrow> \<not> cmp a c"
  shows "mset (foldr (insert_by cmp) xs []) = mset xs \<and>
         sorted_wrt (\<lambda>a b. \<not> cmp b a) (foldr (insert_by cmp) xs [])"
  by (induction xs) (auto simp: mset_insert_by intro: sorted_insert_by [OF asym ntrans])

lemma sort_keeping_ties_contract:
  assumes "\<And>a b. cmp a b \<Longrightarrow> \<not> cmp b a"
    and "\<And>a b c. \<not> cmp a b \<Longrightarrow> \<not> cmp b c \<Longrightarrow> \<not> cmp a c"
  shows "std_sort_contract cmp (sort_keeping_ties cmp)"
  unfolding std_sort_contract_def sort_keeping_ties_def
  by (intro allI foldr_insert_by_contract) (use assms in blast)+

lemma listener_comp_asym: "listener_comp a b \<Longrightarrow> \<not> listener_comp b a"
  by (simp add: listener_comp_def)

lemma listener_comp_ntrans:
  "\<not> listener_comp a b \<Longrightarrow> \<not> listener_comp b c \<Longrightarrow> \<not> listener_comp a c"
  by (simp add: listener_comp_def)

lemma keeping_ties_listeners: "std_sort_contract listener_comp (sort_keeping_ties listener_comp)"
  by (rule sort_keeping_ties_contract) (simp_all add: listener_comp_def)

lemma listener_comp_order: "strict_weak_order listener_comp"
  unfolding strict_weak_order_def listener_comp_def by auto

lemma libstdcxx_listeners: "std_sort_contract listener_comp (std_sort listener_comp)"
  using listener_comp_order by (rule std_sort_meets_contract)

subsection \<open>Order of notification\<close>

lemma contract_sorted:
  assumes "std_sort_contract listener_comp srt"
  shows "sorted_wrt (\<lambda>a b. listener_priority a \<ge> listener_priority b) (srt xs)"
proof -
  have "(\<lambda>a b. \<not> listener_comp b a) = (\<lambda>a b. listener_priority a \<ge> listener_priority b)"
    by (auto simp: listener_comp_def fun_eq_iff)
  with assms show ?thesis
    unfolding std_sort_contract_def by metis
qed

lemma subscribe_sorted:
  assumes "std_sort_contract listener_comp srt" and "listeners_sorted s"
  shows "listeners_sorted (snd (subscribe srt s eventType callback priority oneShot))"
  using assms(2) contract_sorted [OF assms(1)]
  by (auto simp: subscribe_def listeners_sorted_def Let_def split: option.splits)

lemma subscribe_all_sorted:
  assumes "std_sort_contract listener_comp srt"
  shows "listeners_sorted s \<Longrightarrow> listeners_sorted (subscribe_all srt s subs)"
proof (induction subs arbitrary: s)
  case Nil
  then show ?case by simp
next
  case (Cons sub subs)
  obtain t c p b where sub: "sub = (t, c, p, b)" by (cases sub)
  from Cons.prems have "listeners_sorted (snd (subscribe srt s t c p b))"
    by (rule subscribe_sorted [OF assms])
  then show ?case using Cons.IH by (simp add: sub)
qed

lemma es_ready_sorted: "listeners_sorted es_ready"
  by (simp add: es_ready_def EventSystem_initialize_def EventSystem_new_def listeners_sorted_def)

lemma publishSync_called:
  "fst (snd (publishSync s event)) = (if es_initialized s then findListeners s (event_type event) else [])"
  by (simp add: publishSync_def Let_def split: prod.splits)

lemma findListeners_sorted:
  "listeners_sorted s \<Longrightarrow>
   sorted_wrt (\<lambda>a b. listener_priority a \<ge> listener_priority b) (findListeners s eventType)"
  by (auto simp: listeners_sorted_def findListeners_def split: option.splits)

text \<open>C2, first half: for every event type, after any sequence of \<open>subscribe\<close> calls on an
  initialised event system, \<open>publishSync\<close> invokes the listeners of that type in descending
  order of priority. This holds for every \<^verbatim>\<open>std::sort\<close> that meets the contract of the
  library, that of libstdc++ among them. (The order among listeners of equal priority is
  whatever the library routine leaves; it is not the insertion order in general, as the
  example after the next one shows.)\<close>

theorem publishSync_descending_priority:
  assumes "std_sort_contract listener_comp srt"
  shows "sorted_wrt (\<lambda>a b. listener_priority a \<ge> listener_priority b)
           (fst (snd (publishSync (subscribe_all srt es_ready subs) event)))"
proof -
  have "listeners_sorted (subscribe_all srt es_ready subs)"
    using es_ready_sorted by (rule subscribe_all_sorted [OF assms])
  then show ?thesis
    by (simp add: publishSync_called findListeners_sorted)
qed

lemma es_ready_simps:
  "es_initialized es_ready" "m_listeners es_ready = Map.empty" "m_nextListenerId es_ready = 0"
  "m_eventQueue es_ready = []"
  by (simp_all add: es_ready_def EventSystem_initialize_def EventSystem_new_def)

text \<open>Two listeners with priorities 5 and 10, subscribed in this order, with the sort of
  libstdc++: priority 10 is invoked first.\<close>

theorem publishSync_descending_priority_witness:
  "std_sort_contract listener_comp (std_sort listener_comp) \<and>
   sorted_wrt (\<lambda>a b. listener_priority a \<ge> listener_priority b)
     (fst (snd (publishSync
        (subscribe_all (std_sort listener_comp) es_ready
           [(7, Some cb_returns, 5, False), (7, Some cb_returns, 10, False)])
        event7))) \<and>
   map listener_priority
     (fst (snd (publishSync
        (subscribe_all (std_sort listener_comp) es_ready
           [(7, Some cb_returns, 5, False), (7, Some cb_returns, 10, False)])
        event7))) = [10, 5]"
  using publishSync_descending_priority [OF libstdcxx_listeners,
      where subs = "[(7, Some cb_returns, 5, False), (7, Some cb_returns, 10, False)]"
        and event = event7]
    libstdcxx_listeners
  by (simp add: publishSync_called subscribe_def es_ready_simps findListeners_def
      listener_comp_def event7_def sort_eval)

subsection \<open>Listeners of equal priority\<close>

lemma listener5_simps:
  "listener_id (listener5 i) = i" "listener_priority (listener5 i) = 5"
  "listener_comp (listener5 i) (listener5 j) = False"
  by (simp_all add: listener5_def listener_comp_def)

lemma subscribe_listener5:
  "es_initialized s \<Longrightarrow>
   subscribe srt s 7 (Some cb_returns) 5 False =
     (m_nextListenerId s + 1,
      s\<lparr>m_nextListenerId := m_nextListenerId s + 1,
        m_listeners := (m_listeners s)
          (7 \<mapsto> srt (findListeners s 7 @ [listener5 (m_nextListenerId s + 1)]))\<rparr>)"
  by (simp add: subscribe_def findListeners_def listener5_def Let_def)

text \<open>What \<^verbatim>\<open>std::sort\<close> of libstdc++ makes of 17 listeners of equal priority: the first is
  exchanged with the one in the middle, which becomes the pivot, and the partitioning then
  exchanges the second with the last, the third with the last but one, and so on.\<close>

lemma std_sort_17_equal:
  "std_sort listener_comp
     [listener5 a1, listener5 a2, listener5 a3, listener5 a4, listener5 a5, listener5 a6,
      listener5 a7, listener5 a8, listener5 a9, listener5 a10, listener5 a11, listener5 a12,
      listener5 a13, listener5 a14, listener5 a15, listener5 a16, listener5 a17] =
     [listener5 a9, listener5 a17, listener5 a16, listener5 a15, listener5 a14, listener5 a13,
      listener5 a12, listener5 a11, listener5 a10, listener5 a1, listener5 a8, listener5 a7,
      listener5 a6, listener5 a5, listener5 a4, listener5 a3, listener5 a2]"
proof -
  let ?xs = "[listener5 a1, listener5 a2, listener5 a3, listener5 a4, listener5 a5, listener5 a6,
      listener5 a7, listener5 a8, listener5 a9, listener5 a10, listener5 a11, listener5 a12,
      listener5 a13, listener5 a14, listener5 a15, listener5 a16, listener5 a17]"
  let ?ys = "[listener5 a9, listener5 a17, listener5 a16, listener5 a15, listener5 a14, listener5 a13,
      listener5 a12, listener5 a11, listener5 a10, listener5 a1, listener5 a8, listener5 a7,
      listener5 a6, listener5 a5, listener5 a4, listener5 a3, listener5 a2]"
  have len: "length ?xs = 17" "length ?ys = 17"
    by simp_all
  have lg: "lg 17 * 2 = 8"
    by (simp add: lg.simps)
  have "introsort_loop listener_comp ?xs 0 17 8 = ?ys"
    by (simp add: sort_eval listener5_simps)
  moreover have "final_insertion_sort listener_comp ?ys 0 17 = ?ys"
    using final_insertion_sort_unordered [of ?ys listener_comp]
    unfolding len by (simp add: listener5_simps)
  ultimately show ?thesis
    unfolding std_sort_def len lg by simp
qed

text \<open>C2, second half, fails: 17 listeners subscribe to event type 7 with priority 5 and
  get the ids 1 to 17 in this order. Up to the sixteenth subscription the listeners stand
  in the order of their subscription. The sort after the seventeenth partitions the range,
  and \<open>publishSync\<close> then invokes listener 9 first and listener 17 before the listeners 1 to
  8 and 10 to 16, which were all subscribed before it.\<close>

theorem equal_priority_order_counterexample:
  "map listener_id
     (findListeners
        (subscribe_all (std_sort listener_comp) es_ready (replicate 16 (7, Some cb_returns, 5, False)))
        7) = [1, 2, 3, 4, 5, 6, 7, 8, 9, 10, 11, 12, 13, 14, 15, 16] \<and>
   fst (subscribe (std_sort listener_comp)
          (subscribe_all (std_sort listener_comp) es_ready (replicate 16 (7, Some cb_returns, 5, False)))
          7 (Some cb_returns) 5 False) = 17 \<and>
   map (\<lambda>l. (listener_id l, listener_priority l))
     (fst (snd (publishSync
        (subscribe_all (std_sort listener_comp) es_ready (replicate 17 (7, Some cb_returns, 5, False)))
        event7))) =
     [(9, 5), (17, 5), (16, 5), (15, 5), (14, 5), (13, 5), (12, 5), (11, 5), (10, 5), (1, 5),
      (8, 5), (7, 5), (6, 5), (5, 5), (4, 5), (3, 5), (2, 5)]"
proof -
  let ?srt = "std_sort listener_comp"
  let ?sub = "(7 :: uint32_t, Some cb_returns, 5 :: uint8_t, False)"
  have s16: "subscribe_all ?srt es_ready (replicate 16 ?sub) =
      es_ready\<lparr>m_nextListenerId := 16,
        m_listeners := [7 \<mapsto> map listener5 [1, 2, 3, 4, 5, 6, 7, 8, 9, 10, 11, 12, 13, 14, 15, 16]]\<rparr>"
    by (simp add: replicate_numeral subscribe_listener5 es_ready_simps findListeners_def
        std_sort_short_unordered listener5_simps S_threshold_def)
  have s17: "subscribe_all ?srt es_ready (replicate 17 ?sub) =
      es_ready\<lparr>m_nextListenerId := 17,
        m_listeners := [7 \<mapsto> map listener5 [9, 17, 16, 15, 14, 13, 12, 11, 10, 1, 8, 7, 6, 5, 4, 3, 2]]\<rparr>"
    by (simp add: replicate_numeral subscribe_listener5 es_ready_simps findListeners_def
        std_sort_short_unordered listener5_simps S_threshold_def std_sort_17_equal)
  show ?thesis
    unfolding s16 s17
    by (simp add: subscribe_listener5 es_ready_simps findListeners_def publishSync_called
        listener5_simps event7_def)
qed

subsection \<open>One-shot listeners\<close>

text \<open>C3 asks that a one-shot listener is invoked exactly once however often its event is
  published. The code removes one-shot listeners only in \<open>cleanupListeners\<close>, which runs at
  the end of a \<open>processEvents\<close> batch: \<open>publishSync\<close> never calls it. A one-shot listener
  (id 1) is therefore invoked twice by two synchronous publications, and twice by one
  \<open>processEvents\<close> batch that holds two events of its type.\<close>

theorem one_shot_listener_fires_twice:
  "map listener_id
     (fst (publishSync_times 2
        (snd (subscribe (sort_keeping_ties listener_comp) es_ready 7 (Some cb_returns) 100 True))
        event7)) = [1, 1] \<and>
   map listener_id
     (fst (snd (processEvents
        (es_run (snd (subscribe (sort_keeping_ties listener_comp) es_ready 7 (Some cb_returns) 100 True))
           [PublishAsync event7, PublishAsync event7])))) = [1, 1]"
  by (simp add: numeral_2_eq_2 publishSync_def subscribe_def es_ready_simps findListeners_def
      sort_keeping_ties_def listener_comp_def event7_def cb_returns_def publishAsync_def
      OS_EVENT_QUEUE_SIZE_def processEvents_def maxEventsPerFrame_def processEvents_loop.simps)

text \<open>Two synchronous publications: two invocations of the one-shot listener.\<close>

theorem one_shot_listener_fires_twice_witness:
  "length
     (fst (publishSync_times 2
        (snd (subscribe (sort_keeping_ties listener_comp) es_ready 7 (Some cb_returns) 100 True))
        event7)) = 2"
  using one_shot_listener_fires_twice [THEN conjunct1, THEN arg_cong [where f = length]]
  by simp

subsection \<open>The bounded queue\<close>

lemma publishSync_queue: "m_eventQueue (snd (snd (publishSync s event))) = m_eventQueue s"
  by (simp add: publishSync_def Let_def split: prod.splits)

lemma processEvents_loop_queue:
  "length (m_eventQueue (fst (processEvents_loop s n invoked))) \<le> length (m_eventQueue s)"
proof (induction s n invoked rule: processEvents_loop.induct)
  case (1 s n invoked)
  show ?case
  proof (cases "m_eventQueue s \<noteq> [] \<and> n < maxEventsPerFrame")
    case True
    obtain k called s' where p:
      "publishSync (s\<lparr>m_eventQueue := tl (m_eventQueue s)\<rparr>) (hd (m_eventQueue s)) = (k, called, s')"
      by (metis prod_cases3)
    have q: "m_eventQueue s' = tl (m_eventQueue s)"
      using publishSync_queue [of "s\<lparr>m_eventQueue := tl (m_eventQueue s)\<rparr>" "hd (m_eventQueue s)"]
      by (simp add: p)
    have "length (m_eventQueue (fst (processEvents_loop
            (s'\<lparr>m_eventsProcessed := m_eventsProcessed s' + 1\<rparr>) (Suc n) (invoked @ called))))
          \<le> length (m_eventQueue (s'\<lparr>m_eventsProcessed := m_eventsProcessed s' + 1\<rparr>))"
      using "1.IH" [OF True p [symmetric] refl] by simp
    then show ?thesis
      using True p q by (subst processEvents_loop.simps) simp
  next
    case False
    then show ?thesis by (subst processEvents_loop.simps) auto
  qed
qed

lemma processEvents_queue:
  "length (m_eventQueue (snd (snd (processEvents s)))) \<le> length (m_eventQueue s)"
proof -
  obtain s' n invoked where l: "processEvents_loop s 0 [] = (s', n, invoked)"
    by (metis prod_cases3)
  have "length (m_eventQueue s') \<le> length (m_eventQueue s)"
    using processEvents_loop_queue [of s 0 "[]"] by (simp add: l)
  then show ?thesis
    by (simp add: processEvents_def l cleanupListeners_def)
qed

lemma publishAsync_queue:
  "length (m_eventQueue s) \<le> OS_EVENT_QUEUE_SIZE \<Longrightarrow>
   length (m_eventQueue (snd (publishAsync s event))) \<le> OS_EVENT_QUEUE_SIZE"
  by (simp add: publishAsync_def)

lemma es_step_queue:
  "length (m_eventQueue s) \<le> OS_EVENT_QUEUE_SIZE \<Longrightarrow>
   length (m_eventQueue (es_step s c)) \<le> OS_EVENT_QUEUE_SIZE"
proof (cases c)
  case (PublishAsync event)
  assume "length (m_eventQueue s) \<le> OS_EVENT_QUEUE_SIZE"
  then show ?thesis by (simp add: PublishAsync publishAsync_queue)
next
  case ProcessEvents
  assume "length (m_eventQueue s) \<le> OS_EVENT_QUEUE_SIZE"
  then show ?thesis
    using processEvents_queue [of s] by (simp add: ProcessEvents)
qed

lemma es_run_queue:
  "length (m_eventQueue s) \<le> OS_EVENT_QUEUE_SIZE \<Longrightarrow>
   length (m_eventQueue (es_run s calls)) \<le> OS_EVENT_QUEUE_SIZE"
  by (induction calls arbitrary: s) (simp_all add: es_step_queue)

text \<open>C9: in every state, \<open>publishAsync\<close> rejects the event and changes nothing when the
  queue already holds \<open>OS_EVENT_QUEUE_SIZE\<close> events; and after any sequence of \<open>publishAsync\<close>
  and \<open>processEvents\<close> calls, from the initialised system or from any state whose queue is
  within the capacity, the queue is within the capacity.\<close>

theorem publishAsync_rejects_when_full_and_queue_bounded:
  "(length (m_eventQueue s) \<ge> OS_EVENT_QUEUE_SIZE \<longrightarrow> publishAsync s event = (False, s)) \<and>
   length (m_eventQueue (es_run es_ready calls)) \<le> OS_EVENT_QUEUE_SIZE \<and>
   (length (m_eventQueue s) \<le> OS_EVENT_QUEUE_SIZE \<longrightarrow>
      length (m_eventQueue (es_run s calls)) \<le> OS_EVENT_QUEUE_SIZE)"
proof (intro conjI impI)
  assume "length (m_eventQueue s) \<ge> OS_EVENT_QUEUE_SIZE"
  then show "publishAsync s event = (False, s)"
    by (simp add: publishAsync_def)
next
  show "length (m_eventQueue (es_run es_ready calls)) \<le> OS_EVENT_QUEUE_SIZE"
    by (rule es_run_queue) (simp add: es_ready_simps)
next
  assume "length (m_eventQueue s) \<le> OS_EVENT_QUEUE_SIZE"
  then show "length (m_eventQueue (es_run s calls)) \<le> OS_EVENT_QUEUE_SIZE"
    by (rule es_run_queue)
qed

text \<open>With 128 events queued the next \<open>publishAsync\<close> is rejected.\<close>

theorem publishAsync_rejects_when_full_witness:
  "length (m_eventQueue es_full) = OS_EVENT_QUEUE_SIZE \<and>
   publishAsync es_full event7 = (False, es_full) \<and>
   length (m_eventQueue (es_run es_full [PublishAsync event7, ProcessEvents, PublishAsync event7]))
     \<le> OS_EVENT_QUEUE_SIZE"
proof -
  have len: "length (m_eventQueue es_full) = OS_EVENT_QUEUE_SIZE"
    by (simp add: es_full_def OS_EVENT_QUEUE_SIZE_def)
  then have ge: "length (m_eventQueue es_full) \<ge> OS_EVENT_QUEUE_SIZE"
    and le: "length (m_eventQueue es_full) \<le> OS_EVENT_QUEUE_SIZE"
    by simp_all
  show ?thesis
    using publishAsync_rejects_when_full_and_queue_bounded
      [of es_full event7 "[PublishAsync event7, ProcessEvents, PublishAsync event7]"] len ge le
    by blast
qed

section \<open>Properties of the task scheduler\<close>

lemma task_comp_asym: "task_comp a b \<Longrightarrow> \<not> task_comp b a"
  by (auto simp: task_comp_def split: if_splits)

lemma task_comp_ntrans: "\<not> task_comp a b \<Longrightarrow> \<not> task_comp b c \<Longrightarrow> \<not> task_comp a c"
  by (auto simp: task_comp_def split: if_splits)

lemma keeping_ties_tasks: "std_sort_contract task_comp (sort_keeping_ties task_comp)"
  by (rule sort_keeping_ties_contract) (blast dest: task_comp_asym task_comp_ntrans)+

lemma run_ready_prefix:
  "\<exists>rest. filter (due currentTime) tasks =
      snd (snd (run_ready currentTime frameStartTime obs k tasks stats)) @ rest"
proof (induction tasks arbitrary: k stats)
  case Nil
  then show ?case by simp
next
  case (Cons task tasks)
  show ?case
  proof (cases "due currentTime task")
    case False
    then show ?thesis
      using Cons.IH [of k stats] by (auto simp: due_def split: prod.splits)
  next
    case True
    obtain task' stats' where e: "executeTask task stats (obs k) = (task', stats')"
      by (cases "executeTask task stats (obs k)")
    show ?thesis
    proof (cases "frameNow (obs k) - frameStartTime > 16")
      case over: True
      with True e show ?thesis by (simp add: due_def)
    next
      case within: False
      with True e show ?thesis
        using Cons.IH [of "Suc k" stats'] by (auto simp: due_def split: prod.splits)
    qed
  qed
qed

lemma run_ready_all:
  "\<forall>j. k \<le> j \<and> j < k + length tasks \<longrightarrow> \<not> frameNow (obs j) - frameStartTime > 16 \<Longrightarrow>
   snd (snd (run_ready currentTime frameStartTime obs k tasks stats)) = filter (due currentTime) tasks"
proof (induction tasks arbitrary: k stats)
  case Nil
  then show ?case by simp
next
  case (Cons task tasks)
  have here: "\<not> frameNow (obs k) - frameStartTime > 16"
    using Cons.prems by simp
  have later: "\<forall>j. Suc k \<le> j \<and> j < Suc k + length tasks \<longrightarrow> \<not> frameNow (obs j) - frameStartTime > 16"
    using Cons.prems by simp
  have same: "\<forall>j. k \<le> j \<and> j < k + length tasks \<longrightarrow> \<not> frameNow (obs j) - frameStartTime > 16"
    using Cons.prems by simp
  show ?case
  proof (cases "due currentTime task")
    case False
    then show ?thesis
      using Cons.IH [OF same, of stats] by (auto simp: due_def split: prod.splits)
  next
    case True
    obtain task' stats' where e: "executeTask task stats (obs k) = (task', stats')"
      by (cases "executeTask task stats (obs k)")
    from True e here show ?thesis
      using Cons.IH [OF later, of stats'] by (auto simp: due_def split: prod.splits)
  qed
qed

lemma update_executed:
  "fst (snd (TaskScheduler_update srt s currentTime obs loadTime)) =
     (if ts_initialized s
      then snd (snd (run_ready currentTime currentTime obs 0 (srt (m_tasks s))
                       (m_tasksExecuted s, m_tasksOverrun s, m_totalExecutionTime s)))
      else [])"
  by (simp add: TaskScheduler_update_def split: prod.splits)

lemma sorted_higher_first:
  assumes c: "std_sort_contract task_comp srt"
    and ts: "srt tasks = xs @ a # ys"
    and pr: "task_priority a > task_priority b"
  shows "b \<notin> set xs"
proof
  assume "b \<in> set xs"
  have "sorted_wrt (\<lambda>x y. \<not> task_comp y x) (xs @ a # ys)"
    using c ts unfolding std_sort_contract_def by metis
  then have "\<not> task_comp a b"
    using \<open>b \<in> set xs\<close> by (auto simp: sorted_wrt_append)
  moreover have "task_priority a \<noteq> task_priority b" using pr by auto
  ultimately show False using pr by (simp add: task_comp_def)
qed

lemma executed_before_iff:
  "executed_before a b executed \<longleftrightarrow> (\<exists>xs ys zs. executed = xs @ a # ys @ b # zs)"
proof (induction executed)
  case Nil
  then show ?case by simp
next
  case (Cons x executed)
  show ?case
  proof
    assume "executed_before a b (x # executed)"
    then consider "x = a" "b \<in> set executed" | "executed_before a b executed" by auto
    then show "\<exists>xs ys zs. x # executed = xs @ a # ys @ b # zs"
    proof cases
      case 1
      then obtain ys zs where "executed = ys @ b # zs" by (auto dest: split_list)
      with 1 have "x # executed = [] @ a # ys @ b # zs" by simp
      then show ?thesis by blast
    next
      case 2
      with Cons.IH obtain xs ys zs where "executed = xs @ a # ys @ b # zs" by blast
      then have "x # executed = (x # xs) @ a # ys @ b # zs" by simp
      then show ?thesis by blast
    qed
  next
    assume "\<exists>xs ys zs. x # executed = xs @ a # ys @ b # zs"
    then obtain xs ys zs where eq: "x # executed = xs @ a # ys @ b # zs" by blast
    show "executed_before a b (x # executed)"
    proof (cases xs)
      case Nil
      with eq show ?thesis by auto
    next
      case (Cons x' xs')
      with eq have "executed = xs' @ a # ys @ b # zs" by simp
      with Cons.IH show ?thesis by auto
    qed
  qed
qed

lemma prefix_order:
  assumes f: "filter P (xs @ a # ys) = executed @ rest"
    and b_in: "b \<in> set executed" and b_not: "b \<notin> set xs" and ab: "a \<noteq> b" and pa: "P a"
  shows "executed_before a b executed"
proof -
  let ?fx = "filter P xs"
  have full: "?fx @ a # filter P ys = executed @ rest"
    using f pa by simp
  have "b \<notin> set ?fx" using b_not by simp
  obtain i where i: "i < length executed" "executed ! i = b"
    using b_in by (auto simp: in_set_conv_nth)
  have "(executed @ rest) ! i = b" using i by (simp add: nth_append)
  then have at: "(?fx @ a # filter P ys) ! i = b" using full by simp
  have "\<not> i < length ?fx"
  proof
    assume "i < length ?fx"
    then have "?fx ! i = b" using at by (simp add: nth_append)
    then show False using \<open>b \<notin> set ?fx\<close> \<open>i < length ?fx\<close> by (metis nth_mem)
  qed
  moreover have "i \<noteq> length ?fx"
    using at ab by (auto simp: nth_append)
  ultimately have gt: "length ?fx < i" by simp
  then have long: "Suc (length ?fx) \<le> length executed" using i by simp
  have "take (Suc (length ?fx)) (executed @ rest) = take (Suc (length ?fx)) (?fx @ a # filter P ys)"
    using full by simp
  then have pre: "take (Suc (length ?fx)) executed = ?fx @ [a]"
    using long by simp
  have "executed = take (Suc (length ?fx)) executed @ drop (Suc (length ?fx)) executed"
    by simp
  then have ex: "executed = ?fx @ a # drop (Suc (length ?fx)) executed"
    using pre by simp
  have "b \<in> set (drop (Suc (length ?fx)) executed)"
    using i gt by (auto simp: in_set_conv_nth intro!: exI [of _ "i - Suc (length ?fx)"])
  then obtain ys' zs where "drop (Suc (length ?fx)) executed = ys' @ b # zs"
    by (auto dest: split_list)
  with ex have "executed = ?fx @ a # ys' @ b # zs" by simp
  then show ?thesis unfolding executed_before_iff by blast
qed

text \<open>C4, as the code has it: let \<open>a\<close> and \<open>b\<close> be tasks of an initialised scheduler, both
  READY and due at the start of an \<open>update\<close> pass, \<open>a\<close> of higher priority than \<open>b\<close>. If \<open>b\<close>
  is executed in the pass, \<open>a\<close> has been executed earlier in it; and if no execution of the
  pass exhausts the frame budget of 16 ms, both are executed, \<open>a\<close> first. This holds for
  every conforming \<^verbatim>\<open>std::sort\<close>.\<close>

theorem higher_priority_runs_first:
  assumes c: "std_sort_contract task_comp srt"
    and init: "ts_initialized s"
    and a: "a \<in> set (m_tasks s)" "due currentTime a"
    and b: "b \<in> set (m_tasks s)" "due currentTime b"
    and pr: "task_priority a > task_priority b"
  shows "(b \<in> set (fst (snd (TaskScheduler_update srt s currentTime obs loadTime))) \<longrightarrow>
            executed_before a b (fst (snd (TaskScheduler_update srt s currentTime obs loadTime)))) \<and>
         (within_budget currentTime obs (length (m_tasks s)) \<longrightarrow>
            executed_before a b (fst (snd (TaskScheduler_update srt s currentTime obs loadTime))))"
proof -
  let ?ts = "srt (m_tasks s)"
  let ?stats = "(m_tasksExecuted s, m_tasksOverrun s, m_totalExecutionTime s)"
  let ?executed = "fst (snd (TaskScheduler_update srt s currentTime obs loadTime))"
  have ex: "?executed = snd (snd (run_ready currentTime currentTime obs 0 ?ts ?stats))"
    using init by (simp add: update_executed)
  have m: "mset ?ts = mset (m_tasks s)"
    using c unfolding std_sort_contract_def by blast
  then have sets: "set ?ts = set (m_tasks s)" by (metis set_mset_mset)
  have len: "length ?ts = length (m_tasks s)" using m by (metis size_mset)
  have "a \<in> set ?ts" using a(1) sets by simp
  then obtain xs ys where split: "?ts = xs @ a # ys"
    by (auto dest: split_list)
  have bx: "b \<notin> set xs" using c split pr by (rule sorted_higher_first)
  have ab: "a \<noteq> b" using pr by auto
  obtain rest where pre: "filter (due currentTime) (xs @ a # ys) = ?executed @ rest"
    using run_ready_prefix [of currentTime ?ts currentTime obs 0 ?stats] ex split by auto
  have first: "b \<in> set ?executed \<longrightarrow> executed_before a b ?executed"
    using prefix_order [OF pre _ bx ab a(2)] by blast
  have second: "executed_before a b ?executed" if w: "within_budget currentTime obs (length (m_tasks s))"
  proof -
    have "\<forall>j. 0 \<le> j \<and> j < 0 + length ?ts \<longrightarrow> \<not> frameNow (obs j) - currentTime > 16"
      using w len by (simp add: within_budget_def list_all_iff)
    then have all: "?executed = filter (due currentTime) ?ts"
      using ex run_ready_all [of 0 ?ts obs currentTime currentTime ?stats] by simp
    have "b \<in> set ?ts" using b sets by simp
    then have "b \<in> set ?executed" using all b(2) by simp
    with first show ?thesis by blast
  qed
  from first second show ?thesis by blast
qed

lemmas ts_eval =
  TaskScheduler_update_def ts_ready_def scheduleOnce_def schedulePeriodic_def OS_MAX_TASKS_def
  TaskScheduler_initialize_def TaskScheduler_new_def
  sort_keeping_ties_def task_comp_def mk_task_def executeTask_def quick_def slow_def
  cleanupTasks_def updateCPULoad_def Let_def due_def within_budget_def

text \<open>Task B (priority 1) is scheduled before task A (priority 2): the pass runs A, then
  B.\<close>

theorem higher_priority_runs_first_witness:
  "std_sort_contract task_comp (sort_keeping_ties task_comp) \<and>
   ts_initialized (ts_once ts_ready [1, 2]) \<and>
   taskA \<in> set (m_tasks (ts_once ts_ready [1, 2])) \<and> due 1000 taskA \<and>
   taskB \<in> set (m_tasks (ts_once ts_ready [1, 2])) \<and> due 1000 taskB \<and>
   task_priority taskA > task_priority taskB \<and>
   within_budget 1000 (\<lambda>k. quick) (length (m_tasks (ts_once ts_ready [1, 2]))) \<and>
   taskB \<in> set (fst (snd (TaskScheduler_update (sort_keeping_ties task_comp)
                              (ts_once ts_ready [1, 2]) 1000 (\<lambda>k. quick) 1002))) \<and>
   executed_before taskA taskB
     (fst (snd (TaskScheduler_update (sort_keeping_ties task_comp)
                  (ts_once ts_ready [1, 2]) 1000 (\<lambda>k. quick) 1002)))"
proof -
  have c: "std_sort_contract task_comp (sort_keeping_ties task_comp)"
    by (rule keeping_ties_tasks)
  have i: "ts_initialized (ts_once ts_ready [1, 2])"
    by (simp add: ts_eval)
  have a: "taskA \<in> set (m_tasks (ts_once ts_ready [1, 2]))" "due 1000 taskA"
    by (simp_all add: ts_eval taskA_def)
  have b: "taskB \<in> set (m_tasks (ts_once ts_ready [1, 2]))" "due 1000 taskB"
    by (simp_all add: ts_eval taskB_def)
  have p: "task_priority taskA > task_priority taskB"
    by (simp add: taskA_def taskB_def mk_task_def)
  have w: "within_budget 1000 (\<lambda>k. quick) (length (m_tasks (ts_once ts_ready [1, 2])))"
    by (simp add: ts_eval upt_rec)
  have e: "fst (snd (TaskScheduler_update (sort_keeping_ties task_comp)
                  (ts_once ts_ready [1, 2]) 1000 (\<lambda>k. quick) 1002)) = [taskA, taskB]"
    by (simp add: ts_eval taskA_def taskB_def)
  have m: "taskB \<in> set (fst (snd (TaskScheduler_update (sort_keeping_ties task_comp)
                              (ts_once ts_ready [1, 2]) 1000 (\<lambda>k. quick) 1002)))"
    unfolding e by simp
  from higher_priority_runs_first [OF c i a b p, of "\<lambda>k. quick" 1002] c i a b p w m
  show ?thesis by blast
qed

text \<open>C4 as stated fails: A and B are READY and due, A has the higher priority, and a third
  task C of still higher priority takes 17 ms. The pass executes C, finds the frame budget
  exhausted and stops: neither A nor B is executed in this pass.\<close>

theorem frame_budget_counterexample:
  "ts_initialized (ts_once ts_ready [1, 2, 3]) \<and>
   taskA \<in> set (m_tasks (ts_once ts_ready [1, 2, 3])) \<and> due 1000 taskA \<and>
   taskB \<in> set (m_tasks (ts_once ts_ready [1, 2, 3])) \<and> due 1000 taskB \<and>
   task_priority taskA > task_priority taskB \<and>
   fst (snd (TaskScheduler_update (sort_keeping_ties task_comp)
               (ts_once ts_ready [1, 2, 3]) 1000 (\<lambda>k. slow) 1017)) = [taskC] \<and>
   \<not> executed_before taskA taskB
       (fst (snd (TaskScheduler_update (sort_keeping_ties task_comp)
                    (ts_once ts_ready [1, 2, 3]) 1000 (\<lambda>k. slow) 1017)))"
proof -
  have e: "fst (snd (TaskScheduler_update (sort_keeping_ties task_comp)
               (ts_once ts_ready [1, 2, 3]) 1000 (\<lambda>k. slow) 1017)) = [taskC]"
    by (simp add: ts_eval taskA_def taskB_def taskC_def)
  have n: "\<not> executed_before taskA taskB [taskC]"
    by simp
  show ?thesis
    unfolding e using n by (simp add: ts_eval taskA_def taskB_def taskC_def)
qed

subsection \<open>Deadlines\<close>

text \<open>The first half of C5 holds: a pass executes only tasks that are READY and whose
  \<open>nextExecution\<close> is not after the time read at the start of the pass.\<close>

lemma executed_tasks_are_due:
  "t \<in> set (fst (snd (TaskScheduler_update srt s currentTime obs loadTime))) \<Longrightarrow>
   task_state t = TaskState_READY \<and> task_nextExecution t \<le> currentTime"
proof -
  assume t: "t \<in> set (fst (snd (TaskScheduler_update srt s currentTime obs loadTime)))"
  let ?stats = "(m_tasksExecuted s, m_tasksOverrun s, m_totalExecutionTime s)"
  from t have init: "ts_initialized s"
    by (auto simp: update_executed split: if_splits)
  obtain rest where "filter (due currentTime) (srt (m_tasks s)) =
      fst (snd (TaskScheduler_update srt s currentTime obs loadTime)) @ rest"
    using run_ready_prefix [of currentTime "srt (m_tasks s)" currentTime obs 0 ?stats] init
    by (auto simp: update_executed)
  then have "t \<in> set (filter (due currentTime) (srt (m_tasks s)))"
    using t by simp
  then show ?thesis by (simp add: due_def)
qed

text \<open>A periodic task is re-armed to the end of its run plus its period, in 32-bit
  arithmetic. As long as that sum stays below \<open>2 ^ 32\<close> the task is not due before it.\<close>

lemma rearm_without_wrap:
  assumes "task_state task = TaskState_READY" and "task_period task > 0"
    and "unat (endTime e) + unat (task_period task) < 2 ^ 32"
  shows "unat (task_nextExecution (fst (executeTask task stats e))) =
           unat (endTime e) + unat (task_period task)"
  using assms by (cases stats) (simp add: executeTask_def Let_def unat_word_ariths)

text \<open>The second half of C5 fails when the sum wraps around. The task (period 1000 ms) runs
  in a pass at 4294966790 ms and ends at \<open>T\<close> = 4294966796 ms. It is re-armed to
  \<open>T + 1000\<close> modulo \<open>2 ^ 32\<close>, which is 500, and the pass at 4294966800 ms, 4 ms after
  \<open>T\<close>, executes it again.\<close>

theorem periodic_rearm_wraps_around:
  "task_period heartbeat = 1000 \<and>
   fst (snd (TaskScheduler_update (sort_keeping_ties task_comp) (ts_heartbeat)
               4294966790 (\<lambda>k. late_run) 4294966796)) = [heartbeat] \<and>
   endTime late_run = 4294966796 \<and>
   map task_nextExecution (m_tasks after_late_run) = [500] \<and>
   map task_id
     (fst (snd (TaskScheduler_update (sort_keeping_ties task_comp) after_late_run
                  4294966800 (\<lambda>k. next_run) 4294966801))) = [1]"
  by (simp add: after_late_run_def ts_heartbeat_def heartbeat_def late_run_def next_run_def
      ts_eval)

text \<open>The task is run again although less than its period has passed.\<close>

theorem periodic_rearm_wraps_around_witness:
  "map task_nextExecution (m_tasks after_late_run) = [500] \<and>
   map task_id
     (fst (snd (TaskScheduler_update (sort_keeping_ties task_comp) after_late_run
                  4294966800 (\<lambda>k. next_run) 4294966801))) = [1]"
  using periodic_rearm_wraps_around by blast

lemmas am_eval =
  am_registered_def am_calc_def am_calc_clock_def demo_app_def registerApp_def
  setMaxConcurrentApps_def AppManager_initialize_def AppManager_new_def OS_MAX_APPS_def
  am_three_def resumeApp_def pauseApp_def
  launchApp_def switchToApp_def killApp_def isAppRunning_def getApp_def getCurrentApp_def
  createApp_def map_find_def on_app_def BaseApp_start_def BaseApp_pause_def BaseApp_resume_def
  isRunning_def isPaused_def Let_def

section \<open>Properties of the application manager\<close>

lemma map_find_assign:
  "map_find (map_assign k v m) k' = (if k' = k then Some v else map_find m k')"
  by (induction m) (auto simp: map_find_def)

lemma map_find_modify:
  "map_find (map_modify k f m) k' =
     (if k' = k then map_option f (map_find m k) else map_find m k')"
  by (induction m) (auto simp: map_find_def)

lemma start_ok_running: "BaseApp_start app now = (OS_OK, app') \<Longrightarrow> isRunning app'"
  by (auto simp: BaseApp_start_def BaseApp_resume_def isRunning_def split: if_splits)

subsection \<open>Launching at the concurrency ceiling\<close>

text \<open>C7, as the code has it: when the application is not running and the number of
  running instances has reached the ceiling, \<open>launchApp\<close> leaves the whole manager, and so
  the running instances and the foreground id, unchanged; it returns \<open>OS_ERROR_BUSY\<close> if the
  manager is initialised and the id is not empty, and \<open>OS_ERROR_INVALID_PARAM\<close> otherwise.\<close>

theorem launchApp_at_ceiling:
  assumes "\<not> isAppRunning s appId"
    and "length (m_runningApps s) \<ge> unat (m_maxConcurrentApps s)"
  shows "snd (launchApp s appId now) = s \<and>
         (am_initialized s \<and> appId \<noteq> [] \<longrightarrow> fst (launchApp s appId now) = OS_ERROR_BUSY) \<and>
         (\<not> am_initialized s \<or> appId = [] \<longrightarrow> fst (launchApp s appId now) = OS_ERROR_INVALID_PARAM)"
  using assms by (simp add: launchApp_def)

text \<open>With a ceiling of 1 and "calc" running, launching "clock" is refused as busy.\<close>

theorem launchApp_at_ceiling_witness:
  "\<not> isAppRunning (am_calc 1) ''clock'' \<and>
   length (m_runningApps (am_calc 1)) \<ge> unat (m_maxConcurrentApps (am_calc 1)) \<and>
   am_initialized (am_calc 1) \<and> ''clock'' \<noteq> [] \<and>
   launchApp (am_calc 1) ''clock'' 20 = (OS_ERROR_BUSY, am_calc 1)"
proof -
  have r: "\<not> isAppRunning (am_calc 1) ''clock''"
    by (simp add: am_eval)
  have c: "length (m_runningApps (am_calc 1)) \<ge> unat (m_maxConcurrentApps (am_calc 1))"
    by (simp add: am_eval)
  have i: "am_initialized (am_calc 1)"
    by (simp add: am_eval)
  from launchApp_at_ceiling [OF r c, of 20] r c i show ?thesis
    by (cases "launchApp (am_calc 1) ''clock'' 20") simp
qed

text \<open>C7 as stated fails for the empty id: it is not running, the ceiling is reached, and
  the first test of \<open>launchApp\<close> returns \<open>OS_ERROR_INVALID_PARAM\<close>, not the busy code.\<close>

theorem launchApp_empty_id_counterexample:
  "\<not> isAppRunning (am_calc 1) [] \<and>
   length (m_runningApps (am_calc 1)) \<ge> unat (m_maxConcurrentApps (am_calc 1)) \<and>
   fst (launchApp (am_calc 1) [] 20) = OS_ERROR_INVALID_PARAM \<and>
   fst (launchApp (am_calc 1) [] 20) \<noteq> OS_ERROR_BUSY"
  by (simp add: am_eval)

subsection \<open>Killing the foreground application\<close>

text \<open>C8 asks that after \<open>killApp\<close> of the foreground application the first remaining
  application is the new foreground. "calc" and then "clock" are launched: the second
  launch pauses "calc" and makes "clock" the foreground. \<open>killApp("clock")\<close> removes "clock",
  clears the foreground id and calls \<open>switchToApp("calc")\<close>, which refuses an application
  that is not RUNNING before it reaches its own code that would resume a paused one.
  "calc" remains in the map and there is no foreground application.\<close>

theorem killApp_foreground_leaves_none:
  "m_currentAppId am_calc_clock = ''clock'' \<and>
   map fst (m_runningApps am_calc_clock) = [''calc'', ''clock''] \<and>
   fst (killApp am_calc_clock ''clock'') = OS_OK \<and>
   map fst (m_runningApps (snd (killApp am_calc_clock ''clock''))) = [''calc''] \<and>
   m_currentAppId (snd (killApp am_calc_clock ''clock'')) = []"
  by (simp add: am_eval)

text \<open>The same happens while an application is RUNNING: with "alarm" paused, "calc"
  RUNNING in the background and "clock" in the foreground, \<open>killApp("clock")\<close> tries the
  first entry, "alarm", only. Afterwards "calc" is RUNNING and there is no foreground
  application.\<close>

lemma killApp_foreground_running_app_remains:
  "m_currentAppId am_three = ''clock'' \<and>
   map (\<lambda>(k, app). (k, map_option m_state app)) (m_runningApps am_three) =
     [(''alarm'', Some AppState_PAUSED), (''calc'', Some AppState_RUNNING),
      (''clock'', Some AppState_RUNNING)] \<and>
   fst (killApp am_three ''clock'') = OS_OK \<and>
   map (\<lambda>(k, app). (k, map_option m_state app)) (m_runningApps (snd (killApp am_three ''clock''))) =
     [(''alarm'', Some AppState_PAUSED), (''calc'', Some AppState_RUNNING)] \<and>
   isAppRunning (snd (killApp am_three ''clock'')) ''calc'' \<and>
   m_currentAppId (snd (killApp am_three ''clock'')) = []"
  by (simp add: am_eval)

text \<open>After the call an application remains and none is the foreground.\<close>

theorem killApp_foreground_leaves_none_witness:
  "map fst (m_runningApps (snd (killApp am_calc_clock ''clock''))) = [''calc''] \<and>
   m_currentAppId (snd (killApp am_calc_clock ''clock'')) = []"
  using killApp_foreground_leaves_none by blast

subsection \<open>The launched application becomes the foreground\<close>

lemma getApp_assign:
  "getApp (s\<lparr>m_runningApps := map_assign k v (m_runningApps s), m_totalLaunches := n\<rparr>) k' =
     (if k' = k then v else getApp s k')"
  by (simp add: getApp_def map_find_assign)

lemma getApp_on_app:
  "getApp (on_app k f s) k' = (if k' = k then map_option f (getApp s k) else getApp s k')"
  by (auto simp: getApp_def on_app_def map_find_modify split: option.splits)

lemma getApp_current: "getApp (s\<lparr>m_currentAppId := c\<rparr>) k = getApp s k"
  by (simp add: getApp_def)

lemma current_on_app: "m_currentAppId (on_app k f s) = m_currentAppId s"
  by (simp add: on_app_def)

lemma switchToApp_new_foreground:
  assumes sw: "switchToApp s appId = (OS_OK, s')"
    and diff: "m_currentAppId s \<noteq> appId"
  shows "m_currentAppId s' = appId \<and>
         (\<exists>app. getApp s' appId = Some app \<and> isRunning app) \<and>
         (\<forall>cur. m_currentAppId s \<noteq> [] \<and> getApp s (m_currentAppId s) = Some cur \<and> isRunning cur \<longrightarrow>
            getApp s' (m_currentAppId s) = Some (cur\<lparr>m_state := AppState_PAUSED\<rparr>))"
proof -
  from sw obtain app where app: "getApp s appId = Some app" "isRunning app"
    and ok: "am_initialized s" "appId \<noteq> []"
    by (auto simp: switchToApp_def split: if_splits option.splits)
  let ?c = "m_currentAppId s"
  define s1 where "s1 =
    (if ?c \<noteq> [] then
       (case getApp s ?c of
          None \<Rightarrow> s
        | Some currentApp \<Rightarrow>
            if isRunning currentApp then on_app ?c (\<lambda>a. snd (BaseApp_pause a)) s else s)
     else s)"
  have g1: "getApp s1 appId = Some app"
    using app diff by (auto simp: s1_def getApp_on_app split: option.splits)
  have np: "\<not> isPaused app" using app(2) by (simp add: isRunning_def isPaused_def)
  have s': "s' = s1\<lparr>m_currentAppId := appId\<rparr>"
    using sw app ok diff g1 np
    by (simp add: switchToApp_def Let_def s1_def [symmetric] getApp_current)
  have cur: "getApp s1 ?c = Some (cur\<lparr>m_state := AppState_PAUSED\<rparr>)"
    if "?c \<noteq> []" "getApp s ?c = Some cur" "isRunning cur" for cur
    using that by (simp add: s1_def getApp_on_app BaseApp_pause_def isRunning_def)
  show ?thesis
    using s' g1 app(2) cur by (auto simp: getApp_current)
qed

text \<open>C10: when \<open>launchApp\<close> of an application that was not running returns \<open>OS_OK\<close>, the
  launched application is the current one and it is RUNNING, and the application that
  was the foreground before the call, if it was RUNNING, is now PAUSED.\<close>

theorem launchApp_makes_foreground:
  assumes l: "launchApp s appId now = (OS_OK, s')"
    and nr: "\<not> isAppRunning s appId"
  shows "m_currentAppId s' = appId \<and>
         (\<exists>app. getCurrentApp s' = Some app \<and> isRunning app) \<and>
         (\<forall>cur. m_currentAppId s \<noteq> [] \<and> getApp s (m_currentAppId s) = Some cur \<and> isRunning cur \<longrightarrow>
            getApp s' (m_currentAppId s) = Some (cur\<lparr>m_state := AppState_PAUSED\<rparr>))"
proof -
  from l nr obtain app app' where
        created: "createApp s appId = Some app"
    and started: "BaseApp_start app now = (OS_OK, app')"
    and sw: "switchToApp
               (s\<lparr>m_runningApps := map_assign appId (Some app') (m_runningApps s),
                  m_totalLaunches := m_totalLaunches s + 1\<rparr>) appId = (OS_OK, s')"
    and ok: "am_initialized s" "appId \<noteq> []"
    by (auto simp: launchApp_def split: if_splits option.splits prod.splits)
  let ?s0 = "s\<lparr>m_runningApps := map_assign appId (Some app') (m_runningApps s),
               m_totalLaunches := m_totalLaunches s + 1\<rparr>"
  have run': "isRunning app'" using started by (rule start_ok_running)
  have g0: "getApp ?s0 appId = Some app'" by (simp add: getApp_assign)
  show ?thesis
  proof (cases "m_currentAppId s = appId")
    case True
    then have "s' = ?s0"
      using sw g0 run' ok by (simp add: switchToApp_def)
    moreover have "\<not> (\<exists>cur. getApp s (m_currentAppId s) = Some cur \<and> isRunning cur)"
      using nr True by (auto simp: isAppRunning_def)
    ultimately show ?thesis
      using True g0 run' by (auto simp: getCurrentApp_def)
  next
    case False
    then have diff: "m_currentAppId ?s0 \<noteq> appId" by simp
    have old: "getApp ?s0 (m_currentAppId s) = getApp s (m_currentAppId s)"
      using False by (simp add: getApp_assign)
    from switchToApp_new_foreground [OF sw diff] old show ?thesis
      by (auto simp: getCurrentApp_def)
  qed
qed

text \<open>Launching "clock" while "calc" is the running foreground application.\<close>

theorem launchApp_makes_foreground_witness:
  "launchApp (am_calc 12) ''clock'' 20 = (OS_OK, am_calc_clock) \<and>
   \<not> isAppRunning (am_calc 12) ''clock'' \<and>
   m_currentAppId (am_calc 12) = ''calc'' \<and>
   map_option m_state (getApp (am_calc 12) ''calc'') = Some AppState_RUNNING \<and>
   m_currentAppId am_calc_clock = ''clock'' \<and>
   map_option m_state (getCurrentApp am_calc_clock) = Some AppState_RUNNING \<and>
   map_option m_state (getApp am_calc_clock ''calc'') = Some AppState_PAUSED"
proof -
  have l: "launchApp (am_calc 12) ''clock'' 20 = (OS_OK, am_calc_clock)"
    by (simp add: am_eval)
  have nr: "\<not> isAppRunning (am_calc 12) ''clock''"
    by (simp add: am_eval)
  have c: "m_currentAppId (am_calc 12) = ''calc''"
    by (simp add: am_eval)
  obtain cur where cur: "getApp (am_calc 12) ''calc'' = Some cur" "isRunning cur"
    by (simp add: am_eval)
  from launchApp_makes_foreground [OF l nr] c cur
  have "m_currentAppId am_calc_clock = ''clock''"
    and "\<exists>app. getCurrentApp am_calc_clock = Some app \<and> isRunning app"
    and "getApp am_calc_clock ''calc'' = Some (cur\<lparr>m_state := AppState_PAUSED\<rparr>)"
    by auto
  with l nr c cur show ?thesis
    by (auto simp: isRunning_def)
qed

text \<open>What \<open>killApp\<close> does achieve: when the first remaining application is RUNNING, it
  becomes the foreground.\<close>

lemma killApp_foreground_running_head:
  assumes "am_initialized s" and "appId \<noteq> []" and "m_currentAppId s = appId"
    and "map_find (m_runningApps s) appId \<noteq> None"
    and "map_erase appId (m_runningApps s) = (k, Some app) # rest"
    and "isRunning app" and "k \<noteq> []"
  shows "fst (killApp s appId) = OS_OK \<and> m_currentAppId (snd (killApp s appId)) = k \<and>
         m_runningApps (snd (killApp s appId)) = (k, Some app) # rest"
  using assms
  by (auto simp: killApp_def switchToApp_def getApp_def map_find_def isPaused_def isRunning_def
      Let_def)

end
